theory Spec2Isabelle
  imports Main "HOL-Library.Multiset"
begin

section \<open>Values that cross the call boundary\<close>

text \<open>
  \<open>flow.py\<close> dispatches on the shape of its arguments.  A positional argument is a
  \<open>str\<close>, a \<open>Site\<close> or a (nested) list of \<open>Site\<close>s, or anything else.  Sites and
  channels are objects compared by identity; an object is named here by its allocation
  index, which is the value of the network counter (\<open>_site_ix\<close>, \<open>_channel_ix\<close>) that
  \<open>__init__\<close> draws for it.
\<close>

datatype sites_arg = One nat | Many "sites_arg list"

datatype arg = Str string | Sites sites_arg | Other

datatype error =
    AttributeError
  | KeyError string
  | TypeError
  | ValueError
  | SingleProducer nat nat
  | Unmodelled

datatype ret = RNone | RSite nat | RChannel nat

datatype warning =
    FailedStructure
  | OrphanedSites "nat list"
  | UnreachableChannels "nat list"

section \<open>Objects\<close>

text \<open>
  \<open>Site.label\<close> is only assigned by two of the three branches of \<open>Site.__init__\<close>:
  \<open>NoAttr\<close> is an object without that attribute, \<open>PyNone\<close> the value \<open>None\<close>.
\<close>

datatype label = NoAttr | PyNone | Label string

text \<open>
  \<open>Site._sites\<close> starts as the empty dict \<open>{}\<close>; the group branch assigns the set
  comprehension \<open>{(a.id, a) for a in args}\<close>, a set of pairs.  A key handed to
  \<open>Site.site\<close> is a string or such a pair.
\<close>

datatype key = KStr string | KPair string nat

datatype subsites = Dict "(key \<times> nat) list" | TupleSet "key set"

record site =
  site_id :: string
  site_label :: label
  site_sites :: subsites
  site_producer :: "nat option"
  site_level :: int
  site_source :: bool

record channel =
  chan_id :: string
  chan_label :: string
  chan_source :: "nat list"
  chan_target :: "nat set"
  chan_level :: int

text \<open>
  The network with the objects created for it.  \<open>nw_sites\<close> and \<open>nw_channels\<close> are
  the dicts \<open>Network._sites\<close> and \<open>Network._channels\<close> in insertion order;
  \<open>site_objs\<close> and \<open>channel_objs\<close> hold every \<open>Site\<close> and \<open>Channel\<close> object
  by allocation index, registered in a dict or not.
\<close>

record network =
  site_objs :: "nat \<Rightarrow> site"
  channel_objs :: "nat \<Rightarrow> channel"
  nw_sites :: "(string \<times> nat) list"
  nw_channels :: "(string \<times> nat) list"
  site_ix :: int
  channel_ix :: int

fun dec :: "nat \<Rightarrow> string" where
  "dec n = (if n < 10 then [''0123456789'' ! n]
            else dec (n div 10) @ [''0123456789'' ! (n mod 10)])"

declare dec.simps [simp del]

definition dict_set :: "('k \<times> 'v) list \<Rightarrow> 'k \<Rightarrow> 'v \<Rightarrow> ('k \<times> 'v) list" where
  "dict_set d k v =
     (if k \<in> fst ` set d then map (\<lambda>(k', v'). if k' = k then (k', v) else (k', v')) d
      else d @ [(k, v)])"

definition upd_site :: "nat \<Rightarrow> (site \<Rightarrow> site) \<Rightarrow> network \<Rightarrow> network" where
  "upd_site s f st = st\<lparr>site_objs := (site_objs st)(s := f (site_objs st s))\<rparr>"

definition upd_channel :: "nat \<Rightarrow> (channel \<Rightarrow> channel) \<Rightarrow> network \<Rightarrow> network" where
  "upd_channel c f st = st\<lparr>channel_objs := (channel_objs st)(c := f (channel_objs st c))\<rparr>"

section \<open>Site\<close>

fun site_refs :: "arg list \<Rightarrow> nat list" where
  "site_refs [] = []"
| "site_refs (Sites (One r) # xs) = r # site_refs xs"
| "site_refs (_ # xs) = site_refs xs"

definition is_Site :: "arg \<Rightarrow> bool" where
  "is_Site a = (case a of Sites (One _) \<Rightarrow> True | _ \<Rightarrow> False)"

definition Site_init :: "arg list \<Rightarrow> network \<Rightarrow> (error + nat) \<times> network" where
  "Site_init args st =
     (let ix = site_ix st + 1;
          r = nat ix;
          new = \<lparr>site_id = ''_s'' @ dec (nat ix), site_label = NoAttr, site_sites = Dict [],
                 site_producer = None, site_level = 4000, site_source = False\<rparr>;
          st1 = st\<lparr>site_ix := ix\<rparr>
      in case args of
           [] \<Rightarrow> (Inr r, st1\<lparr>site_objs := (site_objs st1)(r := new\<lparr>site_label := PyNone\<rparr>)\<rparr>)
         | [Str l] \<Rightarrow> (Inr r, st1\<lparr>site_objs := (site_objs st1)(r := new\<lparr>site_label := Label l\<rparr>)\<rparr>)
         | _ \<Rightarrow>
             if list_all is_Site args
             then (Inr r, st1\<lparr>site_objs := (site_objs st1)
                     (r := new\<lparr>site_sites :=
                        TupleSet ((\<lambda>a. KPair (site_id (site_objs st a)) a) ` set (site_refs args))\<rparr>)\<rparr>)
             else (Inl AttributeError, st1\<lparr>site_objs := (site_objs st1)(r := new)\<rparr>))"

definition Site_site :: "nat \<Rightarrow> key \<Rightarrow> network \<Rightarrow> error + nat" where
  "Site_site g k st =
     (case site_sites (site_objs st g) of
        Dict d \<Rightarrow> (case map_of d k of Some r \<Rightarrow> Inr r | None \<Rightarrow> Inl AttributeError)
      | TupleSet S \<Rightarrow> if k \<in> S then Inl TypeError else Inl AttributeError)"

definition Site_label :: "nat \<Rightarrow> network \<Rightarrow> error + string" where
  "Site_label s st =
     (case site_label (site_objs st s) of
        NoAttr \<Rightarrow> Inl AttributeError
      | PyNone \<Rightarrow> Inr (site_id (site_objs st s))
      | Label l \<Rightarrow> Inr l)"

section \<open>Channel\<close>

fun add_input :: "nat \<Rightarrow> sites_arg \<Rightarrow> network \<Rightarrow> network"
  and add_input_each :: "nat \<Rightarrow> sites_arg list \<Rightarrow> network \<Rightarrow> network" where
  "add_input c (Many xs) st = add_input_each c xs st"
| "add_input c (One s) st =
     (if s \<notin> set (chan_source (channel_objs st c))
      then upd_channel c (\<lambda>ch. ch\<lparr>chan_source := chan_source ch @ [s]\<rparr>) st
      else st)"
| "add_input_each c [] st = st"
| "add_input_each c (x # xs) st = add_input_each c xs (add_input c x st)"

fun discard_input :: "nat \<Rightarrow> sites_arg \<Rightarrow> network \<Rightarrow> (error + nat) \<times> network"
  and discard_input_each :: "nat \<Rightarrow> sites_arg list \<Rightarrow> network \<Rightarrow> (error + nat) \<times> network" where
  "discard_input c (Many xs) st = discard_input_each c xs st"
| "discard_input c (One s) st =
     (if s \<in> set (chan_source (channel_objs st c))
      then (Inr c, upd_channel c (\<lambda>ch. ch\<lparr>chan_source := remove1 s (chan_source ch)\<rparr>) st)
      else (Inl ValueError, st))"
| "discard_input_each c [] st = (Inr c, st)"
| "discard_input_each c (x # xs) st =
     (case discard_input c x st of
        (Inl e, st') \<Rightarrow> (Inl e, st')
      | (Inr _, st') \<Rightarrow> discard_input_each c xs st')"

text \<open>
  Formatting a site (\<open>__str__\<close>, \<open>__repr__\<close>) calls \<open>Site._label\<close>, which raises on a
  site without the attribute \<open>label\<close>; formatting a channel formats the list of its
  sources and the set of its targets.  The message of the single-producer exception
  formats the site and its producer.
\<close>

definition site_prints :: "nat \<Rightarrow> network \<Rightarrow> bool" where
  "site_prints s st = (site_label (site_objs st s) \<noteq> NoAttr)"

definition channel_prints :: "nat \<Rightarrow> network \<Rightarrow> bool" where
  "channel_prints c st =
     (list_all (\<lambda>x. site_prints x st) (chan_source (channel_objs st c))
      \<and> (\<forall>x \<in> chan_target (channel_objs st c). site_prints x st))"

definition message_renders :: "nat \<Rightarrow> nat \<Rightarrow> network \<Rightarrow> bool" where
  "message_renders s p st = (site_prints s st \<and> channel_prints p st)"

fun add_output :: "nat \<Rightarrow> sites_arg \<Rightarrow> network \<Rightarrow> (error + nat) \<times> network"
  and add_output_each :: "nat \<Rightarrow> sites_arg list \<Rightarrow> network \<Rightarrow> (error + nat) \<times> network" where
  "add_output c (Many xs) st = add_output_each c xs st"
| "add_output c (One s) st =
     (case site_producer (site_objs st s) of
        None \<Rightarrow>
          (Inr c, upd_channel c (\<lambda>ch. ch\<lparr>chan_target := insert s (chan_target ch)\<rparr>)
                    (upd_site s (\<lambda>x. x\<lparr>site_producer := Some c\<rparr>) st))
      | Some p \<Rightarrow>
          if p = c
          then (Inr c, upd_channel c (\<lambda>ch. ch\<lparr>chan_target := insert s (chan_target ch)\<rparr>)
                         (upd_site s (\<lambda>x. x\<lparr>site_producer := Some c\<rparr>) st))
          else if message_renders s p st then (Inl (SingleProducer s p), st)
          else (Inl AttributeError, st))"
| "add_output_each c [] st = (Inr c, st)"
| "add_output_each c (x # xs) st =
     (case add_output c x st of
        (Inl e, st') \<Rightarrow> (Inl e, st')
      | (Inr _, st') \<Rightarrow> add_output_each c xs st')"

fun discard_output :: "nat \<Rightarrow> sites_arg \<Rightarrow> network \<Rightarrow> network"
  and discard_output_each :: "nat \<Rightarrow> sites_arg list \<Rightarrow> network \<Rightarrow> network" where
  "discard_output c (Many xs) st = discard_output_each c xs st"
| "discard_output c (One s) st =
     (if s \<in> chan_target (channel_objs st c)
      then upd_channel c (\<lambda>ch. ch\<lparr>chan_target := chan_target ch - {s}\<rparr>)
             (upd_site s (\<lambda>x. x\<lparr>site_source := True\<rparr>) st)
      else st)"
| "discard_output_each c [] st = st"
| "discard_output_each c (x # xs) st = discard_output_each c xs (discard_output c x st)"

text \<open>
  \<open>Channel.__init__\<close>.  \<open>add_input\<close> appends a source that is not a list without
  looking at it, so a source that is no \<open>Site\<close> would enter \<open>_source\<close>; the source
  list of this model holds sites only and such a call is answered \<open>Unmodelled\<close>.
  A target that is neither a list nor a \<open>Site\<close> has no \<open>_producer\<close>.
  \<open>Channel_alloc\<close> is the head of \<open>__init__\<close>, up to \<open>self._target = set()\<close>;
  \<open>_level\<close> is assigned last, after both endpoints were added (the attribute does not
  exist before; its field holds \<open>- 1\<close> from the start).
\<close>

definition Channel_alloc :: "string option \<Rightarrow> network \<Rightarrow> nat \<times> network" where
  "Channel_alloc lbl st =
     (let ix = channel_ix st + 1;
          c = nat ix;
          cid = ''_c'' @ dec (nat ix);
          new = \<lparr>chan_id = cid, chan_label = (case lbl of None \<Rightarrow> cid | Some l \<Rightarrow> l),
                 chan_source = [], chan_target = {}, chan_level = - 1\<rparr>
      in (c, st\<lparr>channel_objs := (channel_objs st)(c := new), channel_ix := ix\<rparr>))"

definition Channel_init ::
  "arg \<Rightarrow> arg \<Rightarrow> string option \<Rightarrow> network \<Rightarrow> (error + nat) \<times> network" where
  "Channel_init source target lbl st =
     (let c = fst (Channel_alloc lbl st);
          st1 = snd (Channel_alloc lbl st)
      in case source of
           Sites src \<Rightarrow>
             (let st2 = add_input c src st1
              in case target of
                   Sites tgt \<Rightarrow>
                     (case add_output c tgt st2 of
                        (Inl e, st3) \<Rightarrow> (Inl e, st3)
                      | (Inr _, st3) \<Rightarrow> (Inr c, upd_channel c (\<lambda>ch. ch\<lparr>chan_level := - 1\<rparr>) st3))
                 | _ \<Rightarrow> (Inl AttributeError, st2))
         | _ \<Rightarrow> (Inl Unmodelled, st1))"

section \<open>Network\<close>

definition blank_site :: site where
  "blank_site = \<lparr>site_id = [], site_label = NoAttr, site_sites = Dict [],
                  site_producer = None, site_level = 4000, site_source = False\<rparr>"

definition blank_channel :: channel where
  "blank_channel = \<lparr>chan_id = [], chan_label = [], chan_source = [], chan_target = {},
                     chan_level = - 1\<rparr>"

text \<open>The state after the assignments of \<open>Network.__init__\<close>, before any site is made;
  no object exists yet (the cells of \<open>site_objs\<close> and \<open>channel_objs\<close> are not referenced).\<close>

definition new_network :: network where
  "new_network = \<lparr>site_objs = (\<lambda>_. blank_site), channel_objs = (\<lambda>_. blank_channel),
                   nw_sites = [], nw_channels = [], site_ix = - 1, channel_ix = - 1\<rparr>"

definition site_by_key :: "string \<Rightarrow> bool \<Rightarrow> network \<Rightarrow> (error + nat) \<times> network" where
  "site_by_key k create st =
     (case map_of (nw_sites st) k of
        Some r \<Rightarrow> (Inr r, st)
      | None \<Rightarrow>
          if create
          then (case Site_init [Str k] st of
                  (Inl e, st') \<Rightarrow> (Inl e, st')
                | (Inr r, st') \<Rightarrow>
                    (Inr r, st'\<lparr>nw_sites := dict_set (nw_sites st') (site_id (site_objs st' r)) r\<rparr>))
          else (Inl (KeyError k), st))"

definition Network_site :: "arg list \<Rightarrow> bool \<Rightarrow> network \<Rightarrow> (error + ret) \<times> network" where
  "Network_site args create st =
     (case args of
        [Str k] \<Rightarrow>
          (case site_by_key k create st of
             (Inl e, st') \<Rightarrow> (Inl e, st')
           | (Inr r, st') \<Rightarrow> (Inr (RSite r), st'))
      | _ \<Rightarrow> (Inr RNone, st))"

definition channel_create :: "arg \<Rightarrow> arg \<Rightarrow> network \<Rightarrow> (error + nat) \<times> network" where
  "channel_create a b st =
     (case Channel_init a b None st of
        (Inl e, st') \<Rightarrow> (Inl e, st')
      | (Inr c, st') \<Rightarrow>
          (Inr c, st'\<lparr>nw_channels := dict_set (nw_channels st') (chan_id (channel_objs st' c)) c\<rparr>))"

definition Network_channel :: "arg list \<Rightarrow> network \<Rightarrow> (error + ret) \<times> network" where
  "Network_channel args st =
     (case args of
        [Str k] \<Rightarrow>
          (case map_of (nw_channels st) k of
             Some c \<Rightarrow> (Inr (RChannel c), st)
           | None \<Rightarrow> (Inl (KeyError k), st))
      | [a, b] \<Rightarrow>
          (case channel_create a b st of
             (Inl e, st') \<Rightarrow> (Inl e, st')
           | (Inr c, st') \<Rightarrow> (Inr (RChannel c), st'))
      | _ \<Rightarrow> (Inr RNone, st))"

text \<open>The loop of \<open>Network.__init__\<close> over \<open>site_ids\<close>, with \<open>tail\<close> the previous site.\<close>

fun init_sites ::
  "string list \<Rightarrow> string list \<Rightarrow> nat option \<Rightarrow> network \<Rightarrow> (error + unit) \<times> network" where
  "init_sites [] cids tail st = (Inr (), st)"
| "init_sites (sn # sns) cids tail st =
     (case site_by_key sn True st of
        (Inl e, st1) \<Rightarrow> (Inl e, st1)
      | (Inr s, st1) \<Rightarrow>
          (case tail of
             None \<Rightarrow> init_sites sns cids (Some s) st1
           | Some t \<Rightarrow>
               (case channel_create (Sites (One t)) (Sites (One s)) st1 of
                  (Inl e, st2) \<Rightarrow> (Inl e, st2)
                | (Inr c, st2) \<Rightarrow>
                    (case cids of
                       [] \<Rightarrow> init_sites sns [] (Some s) st2
                     | l # ls \<Rightarrow>
                         init_sites sns ls (Some s)
                           (upd_channel c (\<lambda>ch. ch\<lparr>chan_label := l\<rparr>) st2)))))"

definition Network_init ::
  "string \<Rightarrow> string list option \<Rightarrow> string list option \<Rightarrow> (error + unit) \<times> network" where
  "Network_init spec site_ids channel_ids =
     (if spec \<notin> {''IF0.1'', ''IF0.2''} then (Inl AttributeError, new_network)
      else case site_ids of
             None \<Rightarrow> (Inr (), new_network)
           | Some sns \<Rightarrow>
               init_sites sns (case channel_ids of None \<Rightarrow> [] | Some l \<Rightarrow> l) None new_network)"

subsection \<open>compute_order\<close>

definition reset_site :: "nat \<Rightarrow> network \<Rightarrow> network" where
  "reset_site s st =
     upd_site s (\<lambda>x. x\<lparr>site_level := (if site_producer x = None then - 1 else 1000)\<rparr>) st"

definition seed_source :: "nat \<Rightarrow> network \<Rightarrow> network" where
  "seed_source s st =
     upd_site s (\<lambda>x. x\<lparr>site_level := (if site_level x = - 1 then 0 else site_level x)\<rparr>) st"

definition reset_channel :: "nat \<Rightarrow> network \<Rightarrow> network" where
  "reset_channel c st =
     (let st1 = upd_channel c (\<lambda>ch. ch\<lparr>chan_level := 1000\<rparr>) st
      in fold seed_source (chan_source (channel_objs st1 c)) st1)"

text \<open>\<open>for s in c._target: s._level = i + 1\<close>: every member of the set gets the same
  value, whatever the order of the iteration.\<close>

definition promote_targets :: "nat \<Rightarrow> int \<Rightarrow> network \<Rightarrow> network" where
  "promote_targets c v st =
     st\<lparr>site_objs := (\<lambda>s. if s \<in> chan_target (channel_objs st c)
                           then (site_objs st s)\<lparr>site_level := v\<rparr>
                           else site_objs st s)\<rparr>"

text \<open>The body of \<open>for c in self._channels.values()\<close> at step \<open>i\<close>; the flag is \<open>done\<close>.\<close>

definition relax_channel :: "int \<Rightarrow> nat \<Rightarrow> bool \<times> network \<Rightarrow> bool \<times> network" where
  "relax_channel i c ds =
     (let st = snd ds
      in if chan_level (channel_objs st c) < i then ds
         else if list_ex (\<lambda>s. site_level (site_objs st s) > i) (chan_source (channel_objs st c))
         then ds
         else (False, promote_targets c (i + 1) (upd_channel c (\<lambda>ch. ch\<lparr>chan_level := i\<rparr>) st)))"

definition relax_pass :: "int \<Rightarrow> network \<Rightarrow> bool \<times> network" where
  "relax_pass i st = fold (relax_channel i) (map snd (nw_channels st)) (True, st)"

function relax :: "bool \<Rightarrow> int \<Rightarrow> network \<Rightarrow> int \<times> network" where
  "relax done i st =
     (if \<not> done \<and> i < int (length (nw_channels st)) + 10
      then relax (fst (relax_pass i st)) (i + 1) (snd (relax_pass i st))
      else (i, st))"
  by pat_completeness auto
termination
proof (relation "measure (\<lambda>(done, i, st). nat (int (length (nw_channels st)) + 10 - i))")
  show "wf (measure (\<lambda>(done, i, st). nat (int (length (nw_channels st)) + 10 - i)))"
    by simp
next
  fix d :: bool and i :: int and st :: network
  assume a: "\<not> d \<and> i < int (length (nw_channels st)) + 10"
  have keep: "nw_channels (snd (fold (relax_channel i) cs ds)) = nw_channels (snd ds)"
    for cs ds
    by (induction cs arbitrary: ds)
       (simp_all add: relax_channel_def promote_targets_def upd_channel_def Let_def)
  have "nw_channels (snd (relax_pass i st)) = nw_channels st"
    by (simp add: relax_pass_def keep)
  with a show "((fst (relax_pass i st), i + 1, snd (relax_pass i st)), (d, i, st))
        \<in> measure (\<lambda>(done, i, st). nat (int (length (nw_channels st)) + 10 - i))"
    by simp
qed

declare relax.simps [simp del]

definition sort_source :: "nat \<Rightarrow> network \<Rightarrow> network" where
  "sort_source c st =
     upd_channel c
       (\<lambda>ch. ch\<lparr>chan_source := sort_key (\<lambda>s. - site_level (site_objs st s)) (chan_source ch)\<rparr>) st"

text \<open>
  The three \<open>print\<close> statements that end \<open>compute_order\<close>: the warnings printed, and
  the exception, if any, that formatting a list of sites or channels raises.
\<close>

definition diagnostics :: "int \<Rightarrow> network \<Rightarrow> warning list \<times> error option" where
  "diagnostics i st =
     (let failed = (if i > int (length (nw_channels st)) + 1 then [FailedStructure] else []);
          orphaned = filter (\<lambda>s. site_level (site_objs st s) = - 1) (map snd (nw_sites st));
          unreachable =
            filter (\<lambda>c. chan_level (channel_objs st c) = 1000) (map snd (nw_channels st))
      in if orphaned \<noteq> [] \<and> \<not> list_all (\<lambda>s. site_prints s st) orphaned
         then (failed, Some AttributeError)
         else if unreachable \<noteq> [] \<and> \<not> list_all (\<lambda>c. channel_prints c st) unreachable
         then (failed @ (if orphaned \<noteq> [] then [OrphanedSites orphaned] else []),
               Some AttributeError)
         else (failed @ (if orphaned \<noteq> [] then [OrphanedSites orphaned] else [])
                 @ (if unreachable \<noteq> [] then [UnreachableChannels unreachable] else []),
               None))"

definition reset_levels :: "network \<Rightarrow> network" where
  "reset_levels st =
     (let st1 = fold reset_site (map snd (nw_sites st)) st
      in fold reset_channel (map snd (nw_channels st1)) st1)"

definition sort_structure :: "network \<Rightarrow> network" where
  "sort_structure st =
     (let st1 = st\<lparr>nw_channels :=
                    sort_key (\<lambda>kc. chan_level (channel_objs st (snd kc))) (nw_channels st)\<rparr>
      in fold sort_source (map snd (nw_channels st1)) st1)"

definition compute_order :: "network \<Rightarrow> (warning list \<times> error option) \<times> network" where
  "compute_order st =
     (let r = relax False 0 (reset_levels st);
          st' = sort_structure (snd r)
      in (diagnostics (fst r) st', st'))"

section \<open>Example networks\<close>

text \<open>\<open>net_sites names\<close>: a new network after \<open>site(n, create=True)\<close> for each name;
  \<open>net_chain names\<close>: \<open>Network(site_ids=names)\<close>.\<close>

definition net_sites :: "string list \<Rightarrow> network" where
  "net_sites names = fold (\<lambda>k st. snd (site_by_key k True st)) names new_network"

definition net_chain :: "string list \<Rightarrow> network" where
  "net_chain names = snd (Network_init ''IF0.2'' (Some names) None)"

text \<open>Sites \<open>A\<close> and \<open>B\<close> of the network and \<open>Channel(nw, A, B)\<close> made directly, as
  \<open>TestChannel.setUp\<close> does: the channel is not in \<open>_channels\<close>.\<close>

definition net_unregistered_channel :: network where
  "net_unregistered_channel =
     snd (Channel_init (Sites (One 0)) (Sites (One 1)) None (net_sites [''A'', ''B'']))"

text \<open>Sites \<open>A\<close>, \<open>S\<close>, \<open>T\<close>, channel 0 from \<open>A\<close> to \<open>S\<close> and channel 1 from
  \<open>A\<close> to no target.\<close>

definition net_conflict :: network where
  "net_conflict =
     snd (channel_create (Sites (One 0)) (Sites (Many []))
       (snd (channel_create (Sites (One 0)) (Sites (One 1)) (net_sites [''A'', ''S'', ''T'']))))"

text \<open>The sites named by a \<open>sites\<close> argument.\<close>

fun sites_of :: "sites_arg \<Rightarrow> nat set"
  and sites_of_each :: "sites_arg list \<Rightarrow> nat set" where
  "sites_of (One s) = {s}"
| "sites_of (Many xs) = sites_of_each xs"
| "sites_of_each [] = {}"
| "sites_of_each (x # xs) = sites_of x \<union> sites_of_each xs"

section \<open>Levels\<close>

text \<open>
  \<open>compute_order\<close> reads and writes only the levels; the rest of the network is what
  the loop runs on.  \<open>lstep\<close>, \<open>lpass\<close> and \<open>lrelax\<close> are \<open>relax_channel\<close>,
  \<open>relax_pass\<close> and \<open>relax\<close> on the pair of level maps, for given sources and
  targets; \<open>init_levels\<close> is what the reset and seed loops leave.
\<close>

type_synonym levels = "(nat \<Rightarrow> int) \<times> (nat \<Rightarrow> int)"

definition levels_of :: "network \<Rightarrow> levels" where
  "levels_of st = (\<lambda>s. site_level (site_objs st s), \<lambda>c. chan_level (channel_objs st c))"

definition srcs :: "network \<Rightarrow> nat \<Rightarrow> nat set" where
  "srcs st c = set (chan_source (channel_objs st c))"

definition tgts :: "network \<Rightarrow> nat \<Rightarrow> nat set" where
  "tgts st c = chan_target (channel_objs st c)"

definition producers :: "network \<Rightarrow> nat \<Rightarrow> nat option" where
  "producers st s = site_producer (site_objs st s)"

definition labels :: "network \<Rightarrow> nat \<Rightarrow> label" where
  "labels st s = site_label (site_objs st s)"

definition blocked :: "(nat \<Rightarrow> nat set) \<Rightarrow> int \<Rightarrow> levels \<Rightarrow> nat \<Rightarrow> bool" where
  "blocked S i L c = (snd L c < i \<or> (\<exists>s \<in> S c. fst L s > i))"

definition lstep ::
  "(nat \<Rightarrow> nat set) \<Rightarrow> (nat \<Rightarrow> nat set) \<Rightarrow> int \<Rightarrow> nat \<Rightarrow> bool \<times> levels \<Rightarrow> bool \<times> levels" where
  "lstep S T i c dl =
     (if blocked S i (snd dl) c then dl
      else (False, (\<lambda>s. if s \<in> T c then i + 1 else fst (snd dl) s, (snd (snd dl))(c := i))))"

definition lpass ::
  "(nat \<Rightarrow> nat set) \<Rightarrow> (nat \<Rightarrow> nat set) \<Rightarrow> nat list \<Rightarrow> int \<Rightarrow> levels \<Rightarrow> bool \<times> levels" where
  "lpass S T cs i L = fold (lstep S T i) cs (True, L)"

function lrelax ::
  "(nat \<Rightarrow> nat set) \<Rightarrow> (nat \<Rightarrow> nat set) \<Rightarrow> nat list \<Rightarrow> bool \<Rightarrow> int \<Rightarrow> levels \<Rightarrow> int \<times> levels" where
  "lrelax S T cs d i L =
     (if \<not> d \<and> i < int (length cs) + 10
      then lrelax S T cs (fst (lpass S T cs i L)) (i + 1) (snd (lpass S T cs i L))
      else (i, L))"
  by pat_completeness auto

termination
  by (relation "measure (\<lambda>(S, T, cs, d, i, L). nat (int (length cs) + 10 - i))") auto

declare lrelax.simps [simp del]

definition init_levels :: "network \<Rightarrow> levels" where
  "init_levels st =
     (\<lambda>s. let b = (if s \<in> snd ` set (nw_sites st)
                    then (if producers st s = None then - 1 else 1000)
                    else site_level (site_objs st s))
           in if s \<in> (\<Union>c \<in> snd ` set (nw_channels st). srcs st c) \<and> b = - 1 then 0 else b,
      \<lambda>c. if c \<in> snd ` set (nw_channels st) then 1000 else chan_level (channel_objs st c))"

definition final_levels :: "network \<Rightarrow> int \<times> levels" where
  "final_levels st =
     lrelax (srcs st) (tgts st) (map snd (nw_channels st)) False 0 (init_levels st)"

definition net_stage1 :: network where
  "net_stage1 =
     snd (channel_create (Sites (One 1)) (Sites (One 2))
       (snd (channel_create (Sites (Many [])) (Sites (One 3))
         (snd (Site_init [Str ''u'']
           (snd (Site_init [Str ''t''] (net_sites [''r'', ''s0'']))))))))"

definition net_staged :: network where
  "net_staged =
     snd (channel_create (Sites (One 0)) (Sites (One 1))
       (add_input 0 (One 2) (snd (compute_order net_stage1))))"

definition targets_registered :: "network \<Rightarrow> bool" where
  "targets_registered st =
     (\<forall>c \<in> snd ` set (nw_channels st).
        chan_target (channel_objs st c) \<subseteq> snd ` set (nw_sites st))"

definition dependency_cycle :: "network \<Rightarrow> nat set \<Rightarrow> bool" where
  "dependency_cycle st B =
     (B \<noteq> {} \<and> B \<subseteq> snd ` set (nw_channels st)
      \<and> (\<forall>c \<in> B. \<exists>s \<in> set (chan_source (channel_objs st c)).
             s \<in> snd ` set (nw_sites st)
             \<and> site_producer (site_objs st s) \<noteq> None
             \<and> (\<exists>c' \<in> B. s \<in> chan_target (channel_objs st c'))
             \<and> (\<forall>c' \<in> snd ` set (nw_channels st).
                    s \<in> chan_target (channel_objs st c') \<longrightarrow> c' \<in> B)))"

definition net_cycle :: network where
  "net_cycle =
     snd (channel_create (Sites (One 1)) (Sites (One 0))
       (snd (channel_create (Sites (One 0)) (Sites (One 1)) (net_sites [''A'', ''B'']))))"

definition stuck ::
  "(nat \<Rightarrow> nat set) \<Rightarrow> (nat \<Rightarrow> nat set) \<Rightarrow> nat list \<Rightarrow> nat set \<Rightarrow> int \<Rightarrow> levels \<Rightarrow> bool" where
  "stuck S T cs B i L =
     (\<forall>c \<in> B. snd L c = 1000
        \<and> (i \<le> 1000 \<longrightarrow>
             (\<exists>s \<in> S c. 1000 \<le> fst L s \<and> (\<forall>c' \<in> set cs. s \<in> T c' \<longrightarrow> c' \<in> B))))"

definition linear_chain :: "nat \<Rightarrow> network \<Rightarrow> bool" where
  "linear_chain n st =
     (map snd (nw_sites st) = [0..<n]
      \<and> map snd (nw_channels st) = [0..<n - 1]
      \<and> (\<forall>c < n - 1. chan_source (channel_objs st c) = [c]
                      \<and> chan_target (channel_objs st c) = {Suc c})
      \<and> (\<forall>s < n. site_producer (site_objs st s) = (if s = 0 then None else Some (s - 1))))"

definition chain_levels :: "nat \<Rightarrow> nat \<Rightarrow> levels \<Rightarrow> bool" where
  "chain_levels n k L =
     ((\<forall>s < n. fst L s = (if s \<le> k then int s else 1000))
      \<and> (\<forall>c < n - 1. snd L c = (if c < k then int c else 1000)))"

definition labels_set :: "network \<Rightarrow> bool" where
  "labels_set st =
     ((\<forall>s \<in> snd ` set (nw_sites st). site_prints s st)
      \<and> (\<forall>c \<in> snd ` set (nw_channels st). channel_prints c st))"

definition chain_built :: "nat \<Rightarrow> network \<Rightarrow> bool" where
  "chain_built j st =
     (site_ix st = int j - 1
      \<and> channel_ix st = int (j - 1) - 1
      \<and> nw_sites st = map (\<lambda>k. (''_s'' @ dec k, k)) [0..<j]
      \<and> nw_channels st = map (\<lambda>k. (''_c'' @ dec k, k)) [0..<j - 1]
      \<and> (\<forall>c < j - 1. chan_source (channel_objs st c) = [c]
                      \<and> chan_target (channel_objs st c) = {Suc c})
      \<and> (\<forall>s < j. site_producer (site_objs st s) = (if s = 0 then None else Some (s - 1))))"

section \<open>Evaluation on concrete networks\<close>

lemmas eval_defs = net_sites_def site_by_key_def Site_init_def Channel_init_def Channel_alloc_def channel_create_def
  new_network_def upd_site_def upd_channel_def dict_set_def Let_def dec.simps Network_init_def
  net_chain_def is_Site_def

lemmas prints_defs = message_renders_def site_prints_def channel_prints_def

lemmas co_defs = reset_levels_def reset_site_def reset_channel_def seed_source_def
  relax_pass_def relax_channel_def promote_targets_def

section \<open>Argument shapes of the lookups\<close>

text \<open>
  C10.  \<open>Network.site\<close> called with anything but one string, and \<open>Network.channel\<close>
  called with anything but one string or two arguments, return \<open>None\<close> and raise
  nothing; the network is untouched.
\<close>

theorem lookup_shape_returns_None:
  "((\<forall>k. args \<noteq> [Str k]) \<longrightarrow> Network_site args create st = (Inr RNone, st))
   \<and> ((\<forall>k. args \<noteq> [Str k]) \<and> length args \<noteq> 2 \<longrightarrow> Network_channel args st = (Inr RNone, st))"
  by (auto simp: Network_site_def Network_channel_def split: list.splits arg.splits)

theorem lookup_shape_returns_None_witness:
  "Network_site [] False new_network = (Inr RNone, new_network)
   \<and> Network_site [Str ''A'', Str ''B''] True new_network = (Inr RNone, new_network)
   \<and> Network_site [Other] True new_network = (Inr RNone, new_network)
   \<and> Network_channel [] new_network = (Inr RNone, new_network)
   \<and> Network_channel [Other] new_network = (Inr RNone, new_network)
   \<and> Network_channel [Sites (One 0), Sites (One 1), Sites (One 2)] new_network = (Inr RNone, new_network)"
  using lookup_shape_returns_None [of "[]" False new_network]
    lookup_shape_returns_None [of "[Str ''A'', Str ''B'']" True new_network]
    lookup_shape_returns_None [of "[Other]" True new_network]
    lookup_shape_returns_None [of "[Sites (One 0), Sites (One 1), Sites (One 2)]" True new_network]
  by simp

section \<open>Group sites\<close>

lemma Site_init_group:
  assumes "list_all is_Site args" "args \<noteq> []" "Site_init args st = (Inr g, st')"
  shows "site_label (site_objs st' g) = NoAttr"
    and "site_sites (site_objs st' g) = TupleSet ((\<lambda>a. KPair (site_id (site_objs st a)) a) ` set (site_refs args))"
  using assms
  by (auto simp: Site_init_def Let_def is_Site_def split: list.splits arg.splits sites_arg.splits if_splits)

text \<open>
  C7.  What the code does where the claim wants the child back: the group branch of
  \<open>Site.__init__\<close> stores a set of \<open>(id, site)\<close> pairs, no string is a member of
  it, and \<open>Site.site\<close> raises \<open>AttributeError\<close> for every identifier, the
  identifiers of the wrapped children included.
\<close>

theorem group_site_lookup_fails:
  "list_all is_Site args \<Longrightarrow> args \<noteq> [] \<Longrightarrow> Site_init args st = (Inr g, st')
   \<Longrightarrow> Site_site g (KStr k) st' = Inl AttributeError"
  by (auto simp: Site_site_def Site_init_group)

theorem group_site_lookup_fails_witness:
  "site_id (site_objs (net_sites [''A'', ''B'']) 0) = ''_s0''
   \<and> fst (Site_init [Sites (One 0), Sites (One 1)] (net_sites [''A'', ''B''])) = Inr 2
   \<and> Site_site 2 (KStr ''_s0'') (snd (Site_init [Sites (One 0), Sites (One 1)] (net_sites [''A'', ''B''])))
       = Inl AttributeError"
proof -
  let ?args = "[Sites (One 0), Sites (One 1)]"
  let ?st = "net_sites [''A'', ''B'']"
  have a: "list_all is_Site ?args"
    by (simp add: is_Site_def)
  have f: "fst (Site_init ?args ?st) = Inr 2"
    by (simp add: eval_defs)
  then have b: "Site_init ?args ?st = (Inr 2, snd (Site_init ?args ?st))"
    by (metis prod.collapse)
  have c: "site_id (site_objs ?st 0) = ''_s0''"
    by (simp add: eval_defs)
  from group_site_lookup_fails [OF a _ b, of "''_s0''"] f c show ?thesis
    by simp
qed

text \<open>
  C8.  \<open>Site._label\<close> after each form of construction: the identifier for an
  unlabeled leaf, the label for a labeled leaf, and \<open>AttributeError\<close> for a group,
  whose \<open>label\<close> attribute \<open>__init__\<close> never assigns.
\<close>

theorem label_accessor_by_form:
  "Site_init args st = (Inr g, st')
   \<Longrightarrow> Site_label g st' =
         (case args of
            [] \<Rightarrow> Inr (site_id (site_objs st' g))
          | [Str l] \<Rightarrow> Inr l
          | _ \<Rightarrow> Inl AttributeError)"
  by (auto simp: Site_init_def Site_label_def Let_def split: list.splits arg.splits if_splits)

theorem label_accessor_by_form_witness:
  "fst (Site_init [Sites (One 0), Sites (One 1)] (net_sites [''A'', ''B''])) = Inr 2
   \<and> Site_label 2 (snd (Site_init [Sites (One 0), Sites (One 1)] (net_sites [''A'', ''B''])))
       = Inl AttributeError
   \<and> fst (Site_init [Str ''A''] new_network) = Inr 0
   \<and> Site_label 0 (snd (Site_init [Str ''A''] new_network)) = Inr ''A''
   \<and> fst (Site_init [] new_network) = Inr 0
   \<and> Site_label 0 (snd (Site_init [] new_network)) = Inr ''_s0''"
proof -
  let ?args = "[Sites (One 0), Sites (One 1)]"
  let ?st = "net_sites [''A'', ''B'']"
  have fb: "fst (Site_init ?args ?st) = Inr 2"
    by (simp add: eval_defs)
  then have b: "Site_init ?args ?st = (Inr 2, snd (Site_init ?args ?st))"
    by (metis prod.collapse)
  have fc: "fst (Site_init [Str ''A''] new_network) = Inr 0"
    by (simp add: eval_defs)
  then have c: "Site_init [Str ''A''] new_network = (Inr 0, snd (Site_init [Str ''A''] new_network))"
    by (metis prod.collapse)
  have fd: "fst (Site_init [] new_network) = Inr 0"
    by (simp add: eval_defs)
  then have d: "Site_init [] new_network = (Inr 0, snd (Site_init [] new_network))"
    by (metis prod.collapse)
  have e: "site_id (site_objs (snd (Site_init [] new_network)) 0) = ''_s0''"
    by (simp add: eval_defs)
  from label_accessor_by_form [OF b] label_accessor_by_form [OF c] label_accessor_by_form [OF d]
    fb fc fd e
  show ?thesis by simp
qed

section \<open>Outputs and the single producer\<close>

text \<open>
  C1.  What \<open>discard_output\<close> does on a target \<open>s\<close> of \<open>c\<close>: \<open>s\<close> leaves the
  target set, but the assignment goes to a new attribute \<open>_source\<close> of the site and
  \<open>_producer\<close> stays \<open>c\<close>, so every other channel is still refused \<open>s\<close>.
\<close>

theorem discard_output_keeps_producer:
  "s \<in> chan_target (channel_objs st c) \<Longrightarrow> site_producer (site_objs st s) = Some c \<Longrightarrow> c' \<noteq> c
   \<Longrightarrow> s \<notin> chan_target (channel_objs (discard_output c (One s) st) c)
       \<and> site_producer (site_objs (discard_output c (One s) st) s) = Some c
       \<and> site_source (site_objs (discard_output c (One s) st) s)
       \<and> isl (fst (add_output c' (One s) (discard_output c (One s) st)))"
  by (simp add: upd_site_def upd_channel_def)

theorem discard_output_keeps_producer_witness:
  "chan_target (channel_objs (net_chain [''A'', ''B'']) 0) = {1}
   \<and> site_producer (site_objs (net_chain [''A'', ''B'']) 1) = Some 0
   \<and> chan_target (channel_objs (discard_output 0 (One 1) (net_chain [''A'', ''B''])) 0) = {}
   \<and> site_producer (site_objs (discard_output 0 (One 1) (net_chain [''A'', ''B''])) 1) = Some 0
   \<and> fst (channel_create (Sites (One 0)) (Sites (One 1))
            (discard_output 0 (One 1) (net_chain [''A'', ''B''])))
       = Inl (SingleProducer 1 0)"
proof -
  let ?st = "net_chain [''A'', ''B'']"
  have a: "chan_target (channel_objs ?st 0) = {1}"
    by (simp add: eval_defs)
  have b: "site_producer (site_objs ?st 1) = Some 0"
    by (simp add: eval_defs)
  have c: "1 \<in> chan_target (channel_objs ?st 0)"
    by (simp add: a)
  have d: "chan_target (channel_objs (discard_output 0 (One 1) ?st) 0) = {}"
    by (simp add: eval_defs)
  have e: "fst (channel_create (Sites (One 0)) (Sites (One 1)) (discard_output 0 (One 1) ?st))
       = Inl (SingleProducer 1 0)"
    by (simp add: eval_defs prints_defs)
  from discard_output_keeps_producer [OF c b, of 1] a b d e show ?thesis
    by simp
qed

lemma add_output_keeps_foreign_producer:
  "site_producer (site_objs st s) = Some p \<Longrightarrow> p \<noteq> c
   \<Longrightarrow> site_producer (site_objs (snd (add_output c a st)) s) = Some p"
  "site_producer (site_objs st s) = Some p \<Longrightarrow> p \<noteq> c
   \<Longrightarrow> site_producer (site_objs (snd (add_output_each c xs st)) s) = Some p"
proof (induction c a st and c xs st rule: add_output_add_output_each.induct)
  case (1 c xs st)
  then show ?case by simp
next
  case (2 c s' st)
  then show ?case
    by (auto simp: upd_site_def upd_channel_def split: option.splits)
next
  case (3 c st)
  then show ?case by simp
next
  case (4 c x xs st)
  show ?case
  proof (cases "add_output c x st")
    case (Pair r st')
    with 4 show ?thesis
      by (cases r) (auto split: sum.splits)
  qed
qed

lemma add_output_conflict_fails:
  "site_producer (site_objs st s) = Some p \<Longrightarrow> p \<noteq> c \<Longrightarrow> s \<in> sites_of a
   \<Longrightarrow> isl (fst (add_output c a st))"
  "site_producer (site_objs st s) = Some p \<Longrightarrow> p \<noteq> c \<Longrightarrow> s \<in> sites_of_each xs
   \<Longrightarrow> isl (fst (add_output_each c xs st))"
proof (induction c a st and c xs st rule: add_output_add_output_each.induct)
  case (1 c xs st)
  then show ?case by simp
next
  case (2 c s' st)
  then show ?case by simp
next
  case (3 c st)
  then show ?case by simp
next
  case (4 c x xs st)
  show ?case
  proof (cases "add_output c x st")
    case (Pair r st')
    show ?thesis
    proof (cases r)
      case (Inl e)
      with Pair show ?thesis by simp
    next
      case (Inr y)
      with Pair "4.IH"(1) "4.prems" have "s \<notin> sites_of x"
        by auto
      with "4.prems" have mem: "s \<in> sites_of_each xs"
        by simp
      from add_output_keeps_foreign_producer(1) [OF "4.prems"(1,2), of x] Pair
      have "site_producer (site_objs st' s) = Some p"
        by simp
      with "4.IH"(2) [OF Pair [symmetric] Inr] "4.prems"(2) mem Pair Inr show ?thesis
        by simp
    qed
  qed
qed

lemma add_input_frame:
  "site_objs (add_input c a st) = site_objs st
   \<and> nw_sites (add_input c a st) = nw_sites st
   \<and> nw_channels (add_input c a st) = nw_channels st
   \<and> site_ix (add_input c a st) = site_ix st
   \<and> channel_ix (add_input c a st) = channel_ix st
   \<and> (\<forall>c'. c' \<noteq> c \<longrightarrow> channel_objs (add_input c a st) c' = channel_objs st c')"
  "site_objs (add_input_each c xs st) = site_objs st
   \<and> nw_sites (add_input_each c xs st) = nw_sites st
   \<and> nw_channels (add_input_each c xs st) = nw_channels st
   \<and> site_ix (add_input_each c xs st) = site_ix st
   \<and> channel_ix (add_input_each c xs st) = channel_ix st
   \<and> (\<forall>c'. c' \<noteq> c \<longrightarrow> channel_objs (add_input_each c xs st) c' = channel_objs st c')"
  by (induction c a st and c xs st rule: add_input_add_input_each.induct)
     (simp_all add: upd_channel_def)

lemma add_output_each_append:
  "add_output_each c (xs @ ys) st =
     (case add_output_each c xs st of
        (Inl e, st') \<Rightarrow> (Inl e, st')
      | (Inr _, st') \<Rightarrow> add_output_each c ys st')"
  by (induction xs arbitrary: st) (auto split: prod.splits sum.splits)

lemma add_output_adopts:
  assumes "site_producer (site_objs st t) = None \<or> site_producer (site_objs st t) = Some c"
  shows "add_output c (One t) st =
     (Inr c, upd_channel c (\<lambda>ch. ch\<lparr>chan_target := insert t (chan_target ch)\<rparr>)
               (upd_site t (\<lambda>x. x\<lparr>site_producer := Some c\<rparr>) st))"
  using assms by auto

lemma add_output_each_adopts:
  assumes "\<forall>t \<in> set ts. site_producer (site_objs st t) = None
                         \<or> site_producer (site_objs st t) = Some c"
  shows "fst (add_output_each c (map One ts) st) = Inr c
   \<and> (\<forall>x. site_producer (site_objs (snd (add_output_each c (map One ts) st)) x)
          = (if x \<in> set ts then Some c else site_producer (site_objs st x)))
   \<and> chan_target (channel_objs (snd (add_output_each c (map One ts) st)) c)
       = chan_target (channel_objs st c) \<union> set ts
   \<and> (\<forall>x. site_label (site_objs (snd (add_output_each c (map One ts) st)) x)
          = site_label (site_objs st x))
   \<and> (\<forall>q. q \<noteq> c \<longrightarrow> channel_objs (snd (add_output_each c (map One ts) st)) q
                       = channel_objs st q)"
  using assms
proof (induction ts arbitrary: st)
  case Nil
  then show ?case by simp
next
  case (Cons t ts)
  let ?st1 = "upd_channel c (\<lambda>ch. ch\<lparr>chan_target := insert t (chan_target ch)\<rparr>)
               (upd_site t (\<lambda>x. x\<lparr>site_producer := Some c\<rparr>) st)"
  from Cons.prems have "site_producer (site_objs st t) = None
      \<or> site_producer (site_objs st t) = Some c"
    by simp
  then have step: "add_output c (One t) st = (Inr c, ?st1)"
    by (rule add_output_adopts)
  have unfold: "add_output_each c (map One (t # ts)) st = add_output_each c (map One ts) ?st1"
    by (simp only: list.map add_output_each.simps step) simp
  have s1: "site_producer (site_objs ?st1 x)
      = (if x = t then Some c else site_producer (site_objs st x))" for x
    by (simp add: upd_site_def upd_channel_def)
  have s2: "chan_target (channel_objs ?st1 c) = insert t (chan_target (channel_objs st c))"
    by (simp add: upd_site_def upd_channel_def)
  have s3: "site_label (site_objs ?st1 x) = site_label (site_objs st x)" for x
    by (simp add: upd_site_def upd_channel_def)
  have s4: "q \<noteq> c \<Longrightarrow> channel_objs ?st1 q = channel_objs st q" for q
    by (simp add: upd_site_def upd_channel_def)
  have "\<forall>t' \<in> set ts. site_producer (site_objs ?st1 t') = None
                         \<or> site_producer (site_objs ?st1 t') = Some c"
    using Cons.prems by (simp add: s1)
  from Cons.IH [OF this] show ?case
    unfolding unfold by (auto simp: s1 s2 s3 s4)
qed

text \<open>
  C2 (amended).  Let \<open>p\<close> be the producer of \<open>s\<close>, \<open>c\<close> another channel, and let the
  labels the message prints exist.  \<open>add_output\<close> of \<open>s\<close> alone on \<open>c\<close> raises the
  single-producer error naming \<open>p\<close> and changes nothing.  Any \<open>sites\<close> argument that
  holds \<open>s\<close> fails, and \<open>s\<close> keeps \<open>p\<close>.  In a flat list where every site before
  \<open>s\<close> has no producer or producer \<open>c\<close>, the error is the one naming \<open>p\<close>, the sites
  before \<open>s\<close> have been adopted by \<open>c\<close> and those after \<open>s\<close> were not looked at.
  Constructing a channel with target \<open>s\<close>, \<open>p\<close> being a channel the network counted,
  raises the same error; sites, both dicts, the site counter and every existing channel
  are as before, the channel counter is one higher, and \<open>Network.channel\<close> registers
  nothing.
\<close>

theorem second_producer_rejected:
  assumes "site_producer (site_objs st s) = Some p" and "p \<noteq> c" and "message_renders s p st"
  shows "add_output c (One s) st = (Inl (SingleProducer s p), st)
   \<and> (s \<in> sites_of a \<longrightarrow> isl (fst (add_output c a st)))
   \<and> site_producer (site_objs (snd (add_output c a st)) s) = Some p
   \<and> ((\<forall>t \<in> set ts. site_producer (site_objs st t) = None
                        \<or> site_producer (site_objs st t) = Some c) \<longrightarrow>
        fst (add_output c (Many (map One ts @ One s # rest)) st) = Inl (SingleProducer s p)
        \<and> snd (add_output c (Many (map One ts @ One s # rest)) st)
            = snd (add_output c (Many (map One ts)) st)
        \<and> (\<forall>t \<in> set ts.
              site_producer
                (site_objs (snd (add_output c (Many (map One ts @ One s # rest)) st)) t) = Some c
              \<and> t \<in> chan_target
                    (channel_objs (snd (add_output c (Many (map One ts @ One s # rest)) st)) c)))
   \<and> (int p \<le> channel_ix st \<longrightarrow>
        fst (Channel_init (Sites src) (Sites (One s)) lbl st) = Inl (SingleProducer s p)
        \<and> site_objs (snd (Channel_init (Sites src) (Sites (One s)) lbl st)) = site_objs st
        \<and> nw_sites (snd (Channel_init (Sites src) (Sites (One s)) lbl st)) = nw_sites st
        \<and> nw_channels (snd (Channel_init (Sites src) (Sites (One s)) lbl st)) = nw_channels st
        \<and> site_ix (snd (Channel_init (Sites src) (Sites (One s)) lbl st)) = site_ix st
        \<and> channel_ix (snd (Channel_init (Sites src) (Sites (One s)) lbl st)) = channel_ix st + 1
        \<and> (\<forall>c'. int c' \<le> channel_ix st \<longrightarrow>
              channel_objs (snd (Channel_init (Sites src) (Sites (One s)) lbl st)) c'
              = channel_objs st c')
        \<and> channel_create (Sites src) (Sites (One s)) st
            = (Inl (SingleProducer s p), snd (Channel_init (Sites src) (Sites (One s)) None st)))"
proof -
  have one: "add_output c (One s) st = (Inl (SingleProducer s p), st)"
    using assms by simp
  have two: "s \<in> sites_of a \<longrightarrow> isl (fst (add_output c a st))"
    using add_output_conflict_fails(1) [OF assms(1,2)] by blast
  have three: "site_producer (site_objs (snd (add_output c a st)) s) = Some p"
    using add_output_keeps_foreign_producer(1) [OF assms(1,2)] .
  have list: "fst (add_output c (Many (map One ts @ One s # rest)) st) = Inl (SingleProducer s p)
        \<and> snd (add_output c (Many (map One ts @ One s # rest)) st)
            = snd (add_output c (Many (map One ts)) st)
        \<and> (\<forall>t \<in> set ts.
              site_producer
                (site_objs (snd (add_output c (Many (map One ts @ One s # rest)) st)) t) = Some c
              \<and> t \<in> chan_target
                    (channel_objs (snd (add_output c (Many (map One ts @ One s # rest)) st)) c))"
    if free: "\<forall>t \<in> set ts. site_producer (site_objs st t) = None
                        \<or> site_producer (site_objs st t) = Some c"
  proof -
    obtain r st' where pr: "add_output_each c (map One ts) st = (r, st')"
      by (cases "add_output_each c (map One ts) st")
    note ad = add_output_each_adopts [OF free, unfolded pr fst_conv snd_conv]
    from ad have r: "r = Inr c"
      by simp
    from free assms(1,2) have "s \<notin> set ts"
      by auto
    with ad assms(1) have prod: "site_producer (site_objs st' s) = Some p"
      by simp
    from ad assms(2,3) have "message_renders s p st'"
      by (simp add: prints_defs)
    with prod assms(2) have "add_output c (One s) st' = (Inl (SingleProducer s p), st')"
      by simp
    then have "add_output c (Many (map One ts @ One s # rest)) st
        = (Inl (SingleProducer s p), st')"
      by (simp add: add_output_each_append pr r)
    moreover have "add_output c (Many (map One ts)) st = (r, st')"
      by (simp add: pr)
    ultimately show ?thesis
      using ad by simp
  qed
  have four: "fst (Channel_init (Sites src) (Sites (One s)) l st) = Inl (SingleProducer s p)
        \<and> site_objs (snd (Channel_init (Sites src) (Sites (One s)) l st)) = site_objs st
        \<and> nw_sites (snd (Channel_init (Sites src) (Sites (One s)) l st)) = nw_sites st
        \<and> nw_channels (snd (Channel_init (Sites src) (Sites (One s)) l st)) = nw_channels st
        \<and> site_ix (snd (Channel_init (Sites src) (Sites (One s)) l st)) = site_ix st
        \<and> channel_ix (snd (Channel_init (Sites src) (Sites (One s)) l st)) = channel_ix st + 1
        \<and> (\<forall>c'. int c' \<le> channel_ix st \<longrightarrow>
              channel_objs (snd (Channel_init (Sites src) (Sites (One s)) l st)) c'
              = channel_objs st c')"
    if le: "int p \<le> channel_ix st" for l
  proof -
    let ?n = "fst (Channel_alloc l st)"
    let ?st1 = "snd (Channel_alloc l st)"
    let ?st2 = "add_input ?n src ?st1"
    have n: "?n = nat (channel_ix st + 1)"
      by (simp add: Channel_alloc_def Let_def)
    from le have pn: "p \<noteq> ?n" and old: "\<And>c'. int c' \<le> channel_ix st \<Longrightarrow> c' \<noteq> ?n"
      by (auto simp: n)
    have f1: "site_objs ?st1 = site_objs st" "nw_sites ?st1 = nw_sites st"
      "nw_channels ?st1 = nw_channels st"
      "site_ix ?st1 = site_ix st" "channel_ix ?st1 = channel_ix st + 1"
      "\<And>c'. c' \<noteq> ?n \<Longrightarrow> channel_objs ?st1 c' = channel_objs st c'"
      by (simp_all add: Channel_alloc_def Let_def)
    have f: "site_objs ?st2 = site_objs st" "nw_sites ?st2 = nw_sites st"
      "nw_channels ?st2 = nw_channels st"
      "site_ix ?st2 = site_ix st" "channel_ix ?st2 = channel_ix st + 1"
      "\<And>c'. c' \<noteq> ?n \<Longrightarrow> channel_objs ?st2 c' = channel_objs st c'"
      using add_input_frame(1) [of ?n src ?st1] f1 by simp_all
    have r: "message_renders s p ?st2"
      using assms(3) pn by (simp add: prints_defs f)
    have "add_output ?n (One s) ?st2 = (Inl (SingleProducer s p), ?st2)"
      using assms(1) pn r by (simp add: f)
    then have "Channel_init (Sites src) (Sites (One s)) l st = (Inl (SingleProducer s p), ?st2)"
      by (simp add: Channel_init_def Let_def)
    with f old show ?thesis
      by simp
  qed
  have five: "channel_create (Sites src) (Sites (One s)) st
            = (Inl (SingleProducer s p), snd (Channel_init (Sites src) (Sites (One s)) None st))"
    if le: "int p \<le> channel_ix st"
    using four [OF le, of None]
    by (cases "Channel_init (Sites src) (Sites (One s)) None st")
       (simp add: channel_create_def)
  from one two three list four [of lbl] five show ?thesis
    by blast
qed

theorem second_producer_rejected_witness:
  "site_producer (site_objs net_conflict 1) = Some 0
   \<and> site_producer (site_objs net_conflict 2) = None
   \<and> message_renders 1 0 net_conflict
   \<and> channel_ix net_conflict = 1
   \<and> add_output 1 (One 1) net_conflict = (Inl (SingleProducer 1 0), net_conflict)
   \<and> fst (add_output 1 (Many [One 2, One 1]) net_conflict) = Inl (SingleProducer 1 0)
   \<and> snd (add_output 1 (Many [One 2, One 1]) net_conflict)
       = snd (add_output 1 (Many [One 2]) net_conflict)
   \<and> site_producer (site_objs (snd (add_output 1 (Many [One 2, One 1]) net_conflict)) 1) = Some 0
   \<and> site_producer (site_objs (snd (add_output 1 (Many [One 2, One 1]) net_conflict)) 2) = Some 1
   \<and> 2 \<in> chan_target (channel_objs (snd (add_output 1 (Many [One 2, One 1]) net_conflict)) 1)
   \<and> channel_create (Sites (One 0)) (Sites (One 1)) net_conflict
       = (Inl (SingleProducer 1 0), snd (Channel_init (Sites (One 0)) (Sites (One 1)) None net_conflict))
   \<and> nw_channels (snd (Channel_init (Sites (One 0)) (Sites (One 1)) None net_conflict))
       = nw_channels net_conflict
   \<and> site_ix (snd (Channel_init (Sites (One 0)) (Sites (One 1)) None net_conflict)) = 2
   \<and> channel_ix (snd (Channel_init (Sites (One 0)) (Sites (One 1)) None net_conflict)) = 2"
proof -
  have a: "site_producer (site_objs net_conflict 1) = Some 0"
    by (simp add: net_conflict_def eval_defs)
  have b: "(0::nat) \<noteq> 1"
    by simp
  have c: "message_renders 1 0 net_conflict"
    by (simp add: net_conflict_def prints_defs eval_defs)
  have d: "channel_ix net_conflict = 1"
    by (simp add: net_conflict_def eval_defs)
  have e: "site_producer (site_objs net_conflict 2) = None"
    by (simp add: net_conflict_def eval_defs)
  have f: "site_ix net_conflict = 2"
    by (simp add: net_conflict_def eval_defs)
  from second_producer_rejected [OF a b c, of "Many [One 2, One 1]" "[2]" "[]" "One 0" None]
    a c d e f
  show ?thesis
    by (simp add: upd_site_def upd_channel_def)
qed

text \<open>
  The claim as stated fails on a list: \<open>add_output([T, S])\<close> on channel 1 raises for
  \<open>S\<close> after \<open>T\<close> has been given producer 1 and entered its target set.
\<close>

theorem second_producer_rejected_counterexample:
  "site_producer (site_objs net_conflict 1) = Some 0
   \<and> fst (add_output 1 (Many [One 2, One 1]) net_conflict) = Inl (SingleProducer 1 0)
   \<and> site_producer (site_objs net_conflict 2) = None
   \<and> site_producer (site_objs (snd (add_output 1 (Many [One 2, One 1]) net_conflict)) 2) = Some 1
   \<and> chan_target (channel_objs net_conflict 1) = {}
   \<and> chan_target (channel_objs (snd (add_output 1 (Many [One 2, One 1]) net_conflict)) 1) = {2}"
  by (simp add: net_conflict_def prints_defs eval_defs)

section \<open>compute_order\<close>

lemma fold_reset_site:
  "fold reset_site xs st =
     st\<lparr>site_objs := (\<lambda>s. if s \<in> set xs
                           then (site_objs st s)\<lparr>site_level :=
                                  (if site_producer (site_objs st s) = None then - 1 else 1000)\<rparr>
                           else site_objs st s)\<rparr>"
proof (induction xs arbitrary: st)
  case Nil
  show ?case by simp
next
  case (Cons x xs)
  show ?case
    by (simp only: fold.simps comp_apply Cons.IH)
       (simp add: reset_site_def upd_site_def fun_eq_iff)
qed

lemma relax_channel_nw_channels:
  "nw_channels (snd (relax_channel i c ds)) = nw_channels (snd ds)"
  by (simp add: relax_channel_def promote_targets_def upd_channel_def Let_def)

lemma fold_relax_channel_nw_channels:
  "nw_channels (snd (fold (relax_channel i) cs ds)) = nw_channels (snd ds)"
  by (induction cs arbitrary: ds) (simp_all add: relax_channel_nw_channels)

lemma relax_pass_nw_channels: "nw_channels (snd (relax_pass i st)) = nw_channels st"
  by (simp add: relax_pass_def fold_relax_channel_nw_channels)

lemma relax_no_channels:
  "nw_channels st = [] \<Longrightarrow> relax False 0 st = (1, st)"
  by (simp add: relax.simps [of False 0] relax.simps [of True 1] relax_pass_def)

lemma sort_structure_no_channels:
  "nw_channels st = [] \<Longrightarrow> sort_structure st = st"
  by (cases st) (simp add: sort_structure_def)

lemma compute_order_no_channels:
  assumes "nw_channels st = []"
  shows "snd (compute_order st) = fold reset_site (map snd (nw_sites st)) st"
    and "fst (compute_order st)
         = diagnostics 1 (fold reset_site (map snd (nw_sites st)) st)"
  using assms
  by (simp_all add: compute_order_def reset_levels_def fold_reset_site relax_no_channels
      sort_structure_no_channels Let_def)

text \<open>
  C6 (amended).  With no channel in the mapping, \<open>compute_order\<close> leaves a site of the
  network at \<open>- 1\<close> when it has no producer and at \<open>1000\<close> when it has one; it changes
  no other site and no channel, and does not report a failed structure.
\<close>

theorem no_channels_levels:
  "nw_channels st = [] \<Longrightarrow>
   (\<forall>s \<in> snd ` set (nw_sites st).
      site_level (site_objs (snd (compute_order st)) s)
        = (if site_producer (site_objs st s) = None then - 1 else 1000))
   \<and> (\<forall>s. s \<notin> snd ` set (nw_sites st) \<longrightarrow>
          site_level (site_objs (snd (compute_order st)) s) = site_level (site_objs st s))
   \<and> channel_objs (snd (compute_order st)) = channel_objs st
   \<and> FailedStructure \<notin> set (fst (fst (compute_order st)))"
  by (simp add: compute_order_no_channels fold_reset_site diagnostics_def Let_def)

theorem no_channels_levels_witness:
  "nw_channels (net_sites [''A'', ''B'']) = []
   \<and> map snd (nw_sites (net_sites [''A'', ''B''])) = [0, 1]
   \<and> site_level (site_objs (snd (compute_order (net_sites [''A'', ''B'']))) 0) = - 1
   \<and> site_level (site_objs (snd (compute_order (net_sites [''A'', ''B'']))) 1) = - 1
   \<and> fst (compute_order (net_sites [''A'', ''B''])) = ([OrphanedSites [0, 1]], None)"
proof -
  let ?st = "net_sites [''A'', ''B'']"
  have a: "nw_channels ?st = []"
    by (simp add: eval_defs)
  have b: "map snd (nw_sites ?st) = [0, 1]"
    by (simp add: eval_defs)
  have c: "site_producer (site_objs ?st 0) = None" "site_producer (site_objs ?st 1) = None"
    by (simp_all add: eval_defs)
  have d: "snd ` set (nw_sites ?st) = {0, 1}"
    using b by (metis list.set(1) list.set(2) set_map insert_commute)
  have e: "fst (compute_order ?st) = ([OrphanedSites [0, 1]], None)"
    by (simp only: compute_order_no_channels(2) [OF a])
       (simp add: diagnostics_def reset_site_def upd_site_def site_prints_def eval_defs)
  from no_channels_levels [OF a] a b c d e show ?thesis
    by simp
qed

text \<open>
  The claim as stated fails when a site of the network is the target of a channel that
  was constructed directly: the mapping is empty and the site ends at \<open>1000\<close>.
\<close>

theorem no_channels_levels_counterexample:
  "nw_channels net_unregistered_channel = []
   \<and> map snd (nw_sites net_unregistered_channel) = [0, 1]
   \<and> site_level (site_objs (snd (compute_order net_unregistered_channel)) 1) = 1000"
proof -
  let ?st = "net_unregistered_channel"
  have a: "nw_channels ?st = []"
    by (simp add: net_unregistered_channel_def eval_defs)
  have b: "map snd (nw_sites ?st) = [0, 1]"
    by (simp add: net_unregistered_channel_def eval_defs)
  have c: "site_producer (site_objs ?st 1) = Some 0"
    by (simp add: net_unregistered_channel_def eval_defs)
  show ?thesis
    using a b c
    by (simp add: compute_order_no_channels [OF a] reset_site_def upd_site_def)
qed

lemma relax_bound:
  "fst (relax d i st) \<le> max i (int (length (nw_channels st)) + 10)"
proof (induction d i st rule: relax.induct)
  case (1 d i st)
  show ?case
  proof (cases "\<not> d \<and> i < int (length (nw_channels st)) + 10")
    case True
    then have eq: "relax d i st = relax (fst (relax_pass i st)) (i + 1) (snd (relax_pass i st))"
      by (simp add: relax.simps [of False i st])
    from "1.IH" True
    have "fst (relax (fst (relax_pass i st)) (i + 1) (snd (relax_pass i st)))
          \<le> max (i + 1) (int (length (nw_channels (snd (relax_pass i st)))) + 10)"
      by blast
    with True show ?thesis
      unfolding eq by (simp add: relax_pass_nw_channels)
  next
    case False
    then have "relax d i st = (i, st)"
      by (subst relax.simps) auto
    then show ?thesis
      by simp
  qed
qed

lemma relax_step_counter_ge: "i \<le> fst (relax d i st)"
proof (induction d i st rule: relax.induct)
  case (1 d i st)
  show ?case
  proof (cases "\<not> d \<and> i < int (length (nw_channels st)) + 10")
    case True
    then have eq: "relax d i st = relax (fst (relax_pass i st)) (i + 1) (snd (relax_pass i st))"
      by (simp add: relax.simps [of False i st])
    from "1.IH" True
    have "i + 1 \<le> fst (relax (fst (relax_pass i st)) (i + 1) (snd (relax_pass i st)))"
      by blast
    then show ?thesis
      unfolding eq by simp
  next
    case False
    then have "relax d i st = (i, st)"
      by (subst relax.simps) auto
    then show ?thesis
      by simp
  qed
qed

text \<open>
  C9.  \<open>relax\<close> is the \<open>while\<close> loop, a total function: it returns for every network.
  The step counter it returns, the number of passes made from 0, is at most the number
  of channels plus 10, and a pass that leaves the flag set is the last one.
\<close>

theorem relax_terminates_within_cap:
  "0 \<le> fst (relax False 0 st)
   \<and> fst (relax False 0 st) \<le> int (length (nw_channels st)) + 10
   \<and> (\<forall>i. i < int (length (nw_channels st)) + 10 \<and> fst (relax_pass i st)
          \<longrightarrow> relax False i st = (i + 1, snd (relax_pass i st)))"
proof -
  have "fst (relax False 0 st) \<le> int (length (nw_channels st)) + 10"
    using relax_bound [of False 0 st] by simp
  moreover have "relax False i st = (i + 1, snd (relax_pass i st))"
    if "i < int (length (nw_channels st)) + 10" "fst (relax_pass i st)" for i
    using that by (simp add: relax.simps [of False i st] relax.simps [of True "i + 1"])
  moreover have "0 \<le> fst (relax False 0 st)"
    by (rule relax_step_counter_ge)
  ultimately show ?thesis by blast
qed

theorem relax_terminates_within_cap_witness:
  "length (nw_channels (reset_levels (net_chain [''A'', ''B'']))) = 1
   \<and> fst (relax False 0 (reset_levels (net_chain [''A'', ''B'']))) = 2
   \<and> \<not> fst (relax_pass 0 (reset_levels (net_chain [''A'', ''B''])))
   \<and> fst (relax_pass 1 (snd (relax_pass 0 (reset_levels (net_chain [''A'', ''B''])))))
   \<and> relax False 1 (snd (relax_pass 0 (reset_levels (net_chain [''A'', ''B'']))))
       = (2, snd (relax_pass 1 (snd (relax_pass 0 (reset_levels (net_chain [''A'', ''B'']))))))"
proof -
  let ?X = "reset_levels (net_chain [''A'', ''B''])"
  let ?Y = "snd (relax_pass 0 ?X)"
  have a: "length (nw_channels ?X) = 1"
    by (simp add: eval_defs co_defs)
  have b: "\<not> fst (relax_pass 0 ?X)"
    by (simp add: eval_defs co_defs)
  have c: "fst (relax_pass 1 ?Y)"
    by (simp add: eval_defs co_defs)
  have d: "length (nw_channels ?Y) = 1"
    by (simp add: relax_pass_nw_channels a)
  have e: "relax False 0 ?X = relax False 1 ?Y"
    using a b by (subst relax.simps) simp
  from relax_terminates_within_cap [of ?X] relax_terminates_within_cap [of ?Y] a b c d e
  show ?thesis
    by simp
qed

section \<open>The leveling loop on levels\<close>

subsection \<open>The loop of the network is the loop on levels\<close>

lemma relax_channel_frame:
  "srcs (snd (relax_channel i c ds)) = srcs (snd ds)"
  "tgts (snd (relax_channel i c ds)) = tgts (snd ds)"
  "producers (snd (relax_channel i c ds)) = producers (snd ds)"
  "labels (snd (relax_channel i c ds)) = labels (snd ds)"
  "nw_sites (snd (relax_channel i c ds)) = nw_sites (snd ds)"
  by (auto simp: relax_channel_def promote_targets_def upd_channel_def Let_def srcs_def tgts_def
      producers_def labels_def fun_eq_iff)

lemma relax_channel_lstep:
  "(fst (relax_channel i c ds), levels_of (snd (relax_channel i c ds)))
   = lstep (srcs (snd ds)) (tgts (snd ds)) i c (fst ds, levels_of (snd ds))"
  by (auto simp: relax_channel_def lstep_def blocked_def levels_of_def srcs_def tgts_def
      promote_targets_def upd_channel_def Let_def list_ex_iff fun_eq_iff)

lemma fold_relax_channel_frame:
  "srcs (snd (fold (relax_channel i) cs ds)) = srcs (snd ds)"
  "tgts (snd (fold (relax_channel i) cs ds)) = tgts (snd ds)"
  "producers (snd (fold (relax_channel i) cs ds)) = producers (snd ds)"
  "labels (snd (fold (relax_channel i) cs ds)) = labels (snd ds)"
  "nw_sites (snd (fold (relax_channel i) cs ds)) = nw_sites (snd ds)"
  by (induction cs arbitrary: ds) (simp_all add: relax_channel_frame)

lemma fold_relax_channel_lstep:
  "(fst (fold (relax_channel i) cs ds), levels_of (snd (fold (relax_channel i) cs ds)))
   = fold (lstep (srcs (snd ds)) (tgts (snd ds)) i) cs (fst ds, levels_of (snd ds))"
proof (induction cs arbitrary: ds)
  case Nil
  show ?case by simp
next
  case (Cons c cs)
  show ?case
    by (simp add: Cons.IH relax_channel_frame relax_channel_lstep [symmetric])
qed

lemma relax_pass_lpass:
  "(fst (relax_pass i st), levels_of (snd (relax_pass i st)))
   = lpass (srcs st) (tgts st) (map snd (nw_channels st)) i (levels_of st)"
  using fold_relax_channel_lstep [of i "map snd (nw_channels st)" "(True, st)"]
  by (simp add: relax_pass_def lpass_def)

lemma relax_pass_frame:
  "srcs (snd (relax_pass i st)) = srcs st"
  "tgts (snd (relax_pass i st)) = tgts st"
  "producers (snd (relax_pass i st)) = producers st"
  "labels (snd (relax_pass i st)) = labels st"
  "nw_sites (snd (relax_pass i st)) = nw_sites st"
  by (simp_all add: relax_pass_def fold_relax_channel_frame)

lemma relax_frame:
  "srcs (snd (relax d i st)) = srcs st \<and> tgts (snd (relax d i st)) = tgts st
   \<and> producers (snd (relax d i st)) = producers st
   \<and> labels (snd (relax d i st)) = labels st
   \<and> nw_sites (snd (relax d i st)) = nw_sites st
   \<and> nw_channels (snd (relax d i st)) = nw_channels st"
proof (induction d i st rule: relax.induct)
  case (1 d i st)
  show ?case
  proof (cases "\<not> d \<and> i < int (length (nw_channels st)) + 10")
    case True
    then have eq: "relax d i st = relax (fst (relax_pass i st)) (i + 1) (snd (relax_pass i st))"
      by (simp add: relax.simps [of False i st])
    from "1.IH" True show ?thesis
      unfolding eq by (simp add: relax_pass_frame relax_pass_nw_channels)
  next
    case False
    then have "relax d i st = (i, st)"
      by (subst relax.simps) auto
    then show ?thesis
      by simp
  qed
qed

lemma relax_lrelax:
  "(fst (relax d i st), levels_of (snd (relax d i st)))
   = lrelax (srcs st) (tgts st) (map snd (nw_channels st)) d i (levels_of st)"
proof (induction d i st rule: relax.induct)
  case (1 d i st)
  let ?cs = "map snd (nw_channels st)"
  show ?case
  proof (cases "\<not> d \<and> i < int (length (nw_channels st)) + 10")
    case True
    then have eq: "relax d i st = relax (fst (relax_pass i st)) (i + 1) (snd (relax_pass i st))"
      by (simp add: relax.simps [of False i st])
    from True have eq': "lrelax (srcs st) (tgts st) ?cs d i (levels_of st)
       = lrelax (srcs st) (tgts st) ?cs (fst (lpass (srcs st) (tgts st) ?cs i (levels_of st)))
           (i + 1) (snd (lpass (srcs st) (tgts st) ?cs i (levels_of st)))"
      by (subst lrelax.simps) simp
    have p: "fst (lpass (srcs st) (tgts st) ?cs i (levels_of st)) = fst (relax_pass i st)"
      "snd (lpass (srcs st) (tgts st) ?cs i (levels_of st)) = levels_of (snd (relax_pass i st))"
      using relax_pass_lpass [of i st] by (simp_all add: prod_eq_iff)
    from "1.IH" True show ?thesis
      unfolding eq eq' p by (simp add: relax_pass_frame relax_pass_nw_channels)
  next
    case False
    then have "relax d i st = (i, st)"
      by (subst relax.simps) auto
    moreover from False have "lrelax (srcs st) (tgts st) ?cs d i (levels_of st) = (i, levels_of st)"
      by (subst lrelax.simps) auto
    ultimately show ?thesis
      by simp
  qed
qed

subsection \<open>One pass on levels\<close>

lemma lstep_blocked: "blocked S i L c \<Longrightarrow> lstep S T i c (d, L) = (d, L)"
  by (simp add: lstep_def)

lemma lstep_fires:
  "\<not> blocked S i L c \<Longrightarrow>
   lstep S T i c (d, L) = (False, (\<lambda>s. if s \<in> T c then i + 1 else fst L s, (snd L)(c := i)))"
  by (simp add: lstep_def cong: if_cong)

lemma blocked_lstep: "blocked S i (snd dl) c \<Longrightarrow> blocked S i (snd (lstep S T i c' dl)) c"
  by (cases "blocked S i (snd dl) c'") (auto simp: lstep_def blocked_def)

lemma blocked_fold: "blocked S i (snd dl) c \<Longrightarrow> blocked S i (snd (fold (lstep S T i) cs dl)) c"
  by (induction cs arbitrary: dl) (simp_all add: blocked_lstep)

lemma level_i_lstep: "snd (snd dl) c = i \<Longrightarrow> snd (snd (lstep S T i c' dl)) c = i"
  by (simp add: lstep_def)

lemma level_i_fold: "snd (snd dl) c = i \<Longrightarrow> snd (snd (fold (lstep S T i) cs dl)) c = i"
  by (induction cs arbitrary: dl) (simp_all add: level_i_lstep)

lemma fold_all_blocked:
  "(\<And>c. c \<in> set cs \<Longrightarrow> blocked S i (snd dl) c) \<Longrightarrow> fold (lstep S T i) cs dl = dl"
proof (induction cs)
  case Nil
  show ?case by simp
next
  case (Cons c cs)
  have "lstep S T i c dl = dl"
    using Cons.prems [of c] by (simp add: lstep_def)
  with Cons show ?case by simp
qed

lemma fired_or_blocked:
  "c \<in> set cs \<Longrightarrow>
   snd (snd (fold (lstep S T i) cs dl)) c = i \<or> blocked S i (snd (fold (lstep S T i) cs dl)) c"
proof (induction cs arbitrary: dl)
  case Nil
  then show ?case by simp
next
  case (Cons x cs)
  show ?case
  proof (cases "c = x")
    case True
    show ?thesis
    proof (cases "blocked S i (snd dl) x")
      case b: True
      then have "blocked S i (snd (fold (lstep S T i) (x # cs) dl)) x"
        by (rule blocked_fold)
      with True show ?thesis by simp
    next
      case False
      then have "snd (snd (lstep S T i x dl)) x = i"
        by (simp add: lstep_def)
      then have "snd (snd (fold (lstep S T i) cs (lstep S T i x dl))) x = i"
        by (rule level_i_fold)
      with True show ?thesis by simp
    qed
  next
    case False
    with Cons.prems have "c \<in> set cs" by simp
    from Cons.IH [OF this, of "lstep S T i x dl"] show ?thesis by simp
  qed
qed

lemma fold_filter_fired:
  "(\<And>c. c \<in> set cs \<Longrightarrow> \<not> Q c \<Longrightarrow> snd (snd (fold (lstep S T i) cs dl)) c \<noteq> i)
   \<Longrightarrow> fold (lstep S T i) (filter Q cs) dl = fold (lstep S T i) cs dl"
proof (induction cs arbitrary: dl)
  case Nil
  show ?case by simp
next
  case (Cons x cs)
  have rest: "fold (lstep S T i) (filter Q cs) (lstep S T i x dl)
              = fold (lstep S T i) cs (lstep S T i x dl)"
    using Cons.prems by (intro Cons.IH) simp_all
  show ?case
  proof (cases "Q x")
    case True
    with rest show ?thesis by simp
  next
    case False
    have "blocked S i (snd dl) x"
    proof (rule ccontr)
      assume "\<not> blocked S i (snd dl) x"
      then have "snd (snd (lstep S T i x dl)) x = i"
        by (simp add: lstep_def)
      then have "snd (snd (fold (lstep S T i) cs (lstep S T i x dl))) x = i"
        by (rule level_i_fold)
      with Cons.prems [of x] False show False by simp
    qed
    then have "lstep S T i x dl = dl"
      by (simp add: lstep_def)
    with rest False show ?thesis by simp
  qed
qed

text \<open>Channel levels move only from a value of at least \<open>i\<close> to \<open>i\<close>.\<close>

lemma lstep_level_cases:
  "snd (snd (lstep S T i c' dl)) c = snd (snd dl) c
   \<or> (snd (snd dl) c \<ge> i \<and> snd (snd (lstep S T i c' dl)) c = i)"
  by (auto simp: lstep_def blocked_def)

lemma fold_level_cases:
  "snd (snd (fold (lstep S T i) cs dl)) c = snd (snd dl) c
   \<or> (snd (snd dl) c \<ge> i \<and> snd (snd (fold (lstep S T i) cs dl)) c = i)"
proof (induction cs arbitrary: dl)
  case Nil
  show ?case by simp
next
  case (Cons x cs)
  from Cons.IH [of "lstep S T i x dl"] lstep_level_cases [of S T i x dl c]
  show ?case by auto
qed

lemma lpass_level_cases:
  "snd (snd (lpass S T cs i L)) c = snd L c
   \<or> (snd L c \<ge> i \<and> snd (snd (lpass S T cs i L)) c = i)"
  using fold_level_cases [of S T i cs "(True, L)" c] by (simp add: lpass_def)

lemma lrelax_level_cases:
  "snd (snd (lrelax S T cs d i L)) c = snd L c
   \<or> (snd L c \<ge> i \<and> snd (snd (lrelax S T cs d i L)) c \<ge> i)"
proof (induction S T cs d i L rule: lrelax.induct)
  case (1 S T cs d i L)
  show ?case
  proof (cases "\<not> d \<and> i < int (length cs) + 10")
    case True
    then have eq: "lrelax S T cs d i L
       = lrelax S T cs (fst (lpass S T cs i L)) (i + 1) (snd (lpass S T cs i L))"
      by (subst lrelax.simps) simp
    from "1.IH" [OF True] lpass_level_cases [of S T cs i L c] show ?thesis
      unfolding eq by auto
  next
    case False
    then have "lrelax S T cs d i L = (i, L)"
      by (subst lrelax.simps) auto
    then show ?thesis by simp
  qed
qed

lemma lrelax_fst_ge: "i \<le> fst (lrelax S T cs d i L)"
proof (induction S T cs d i L rule: lrelax.induct)
  case (1 S T cs d i L)
  show ?case
  proof (cases "\<not> d \<and> i < int (length cs) + 10")
    case True
    then have eq: "lrelax S T cs d i L
       = lrelax S T cs (fst (lpass S T cs i L)) (i + 1) (snd (lpass S T cs i L))"
      by (subst lrelax.simps) simp
    from "1.IH" [OF True] show ?thesis
      unfolding eq by simp
  next
    case False
    then have "lrelax S T cs d i L = (i, L)"
      by (subst lrelax.simps) auto
    then show ?thesis by simp
  qed
qed

subsection \<open>The order of the channels after sorting leaves the loop as it is\<close>

lemma sorted_split3:
  fixes f :: "'a \<Rightarrow> int"
  shows "sorted (map f ys) \<Longrightarrow>
    ys = filter (\<lambda>x. f x < k) ys @ filter (\<lambda>x. f x = k) ys @ filter (\<lambda>x. k < f x) ys"
proof (induction ys)
  case Nil
  show ?case by simp
next
  case (Cons y ys)
  then have le: "\<forall>z \<in> set ys. f y \<le> f z" and s: "sorted (map f ys)"
    by auto
  note IH = Cons.IH [OF s]
  consider "f y < k" | "f y = k" | "k < f y"
    by linarith
  then show ?case
  proof cases
    case 1
    with IH show ?thesis by simp
  next
    case 2
    with le have "filter (\<lambda>x. f x < k) ys = []"
      by (auto simp: filter_empty_conv)
    with 2 IH show ?thesis by simp
  next
    case 3
    with le have "filter (\<lambda>x. f x < k) ys = []" "filter (\<lambda>x. f x = k) ys = []"
      by (fastforce simp: filter_empty_conv)+
    with 3 IH show ?thesis by simp
  qed
qed

lemma lpass_sorted:
  assumes H1: "\<And>c. c \<in> set cs \<Longrightarrow> f c < i \<Longrightarrow> snd L c < i"
    and H2: "\<And>c. c \<in> set cs \<Longrightarrow> snd (snd (lpass S T cs i L)) c = i \<Longrightarrow> f c = i"
  shows "lpass S T (sort_key f cs) i L = lpass S T cs i L"
proof -
  let ?ys = "sort_key f cs"
  let ?A = "filter (\<lambda>c. f c < i) ?ys"
  let ?B = "filter (\<lambda>c. f c = i) ?ys"
  let ?C = "filter (\<lambda>c. i < f c) ?ys"
  let ?after = "fold (lstep S T i) cs (True, L)"
  have split: "?ys = ?A @ ?B @ ?C"
    by (rule sorted_split3) simp
  have B: "?B = filter (\<lambda>c. f c = i) cs"
    by (rule sort_key_stable)
  have a: "fold (lstep S T i) ?A (True, L) = (True, L)"
  proof (rule fold_all_blocked)
    fix c assume "c \<in> set ?A"
    then have "c \<in> set cs" "f c < i" by simp_all
    then show "blocked S i (snd (True, L)) c"
      using H1 by (simp add: blocked_def)
  qed
  have b: "fold (lstep S T i) ?B (True, L) = ?after"
    unfolding B
  proof (rule fold_filter_fired)
    fix c assume "c \<in> set cs" "f c \<noteq> i"
    with H2 [of c] show "snd (snd ?after) c \<noteq> i"
      by (auto simp: lpass_def)
  qed
  have c: "fold (lstep S T i) ?C ?after = ?after"
  proof (rule fold_all_blocked)
    fix c assume "c \<in> set ?C"
    then have mem: "c \<in> set cs" and gt: "i < f c" by simp_all
    from H2 [OF mem] gt have "snd (snd ?after) c \<noteq> i"
      by (auto simp: lpass_def)
    with fired_or_blocked [OF mem, of S T i "(True, L)"] show "blocked S i (snd ?after) c"
      by simp
  qed
  have "lpass S T ?ys i L = fold (lstep S T i) (?A @ ?B @ ?C) (True, L)"
    unfolding lpass_def using split by simp
  also have "\<dots> = ?after"
    by (simp add: a b c)
  finally show ?thesis
    by (simp add: lpass_def)
qed

lemma lrelax_sorted:
  "lrelax S T (sort_key (snd (snd (lrelax S T cs d i L))) cs) d i L = lrelax S T cs d i L"
proof (induction S T cs d i L rule: lrelax.induct)
  case (1 S T cs d i L)
  let ?f = "snd (snd (lrelax S T cs d i L))"
  let ?ys = "sort_key ?f cs"
  show ?case
  proof (cases "\<not> d \<and> i < int (length cs) + 10")
    case True
    let ?d' = "fst (lpass S T cs i L)"
    let ?L' = "snd (lpass S T cs i L)"
    from True have eq: "lrelax S T cs d i L = lrelax S T cs ?d' (i + 1) ?L'"
      by (subst lrelax.simps) simp
    have H1: "snd L c < i" if "c \<in> set cs" "?f c < i" for c
      using lrelax_level_cases [of S T cs d i L c] that by auto
    have H2: "?f c = i" if "c \<in> set cs" "snd ?L' c = i" for c
      using lrelax_level_cases [of S T cs ?d' "i + 1" ?L' c] that unfolding eq by auto
    have pass: "lpass S T ?ys i L = lpass S T cs i L"
      using H1 H2 by (rule lpass_sorted)
    from True have "lrelax S T ?ys d i L
        = lrelax S T ?ys (fst (lpass S T ?ys i L)) (i + 1) (snd (lpass S T ?ys i L))"
      by (subst lrelax.simps) simp
    also have "\<dots> = lrelax S T ?ys ?d' (i + 1) ?L'"
      by (simp add: pass)
    also have "\<dots> = lrelax S T cs ?d' (i + 1) ?L'"
      using "1.IH" [OF True] unfolding eq .
    finally show ?thesis
      unfolding eq .
  next
    case False
    then have "lrelax S T cs d i L = (i, L)"
      by (subst lrelax.simps) auto
    moreover from False have "lrelax S T ?ys d i L = (i, L)"
      by (subst lrelax.simps) auto
    ultimately show ?thesis
      by simp
  qed
qed

subsection \<open>The number of passes\<close>

lemma progress_leaves_level_i:
  "\<not> fst (fold (lstep S T i) cs dl) \<Longrightarrow>
   \<not> fst dl \<or> (\<exists>c \<in> set cs. snd (snd (fold (lstep S T i) cs dl)) c = i)"
proof (induction cs arbitrary: dl)
  case Nil
  then show ?case by simp
next
  case (Cons x cs)
  from Cons.prems have "\<not> fst (fold (lstep S T i) cs (lstep S T i x dl))"
    by simp
  from Cons.IH [OF this]
  consider "\<not> fst (lstep S T i x dl)"
    | "\<exists>c \<in> set cs. snd (snd (fold (lstep S T i) cs (lstep S T i x dl))) c = i"
    by blast
  then show ?case
  proof cases
    case 1
    show ?thesis
    proof (cases "blocked S i (snd dl) x")
      case True
      with 1 show ?thesis by (simp add: lstep_def)
    next
      case False
      then have "snd (snd (lstep S T i x dl)) x = i"
        by (simp add: lstep_def)
      then have "snd (snd (fold (lstep S T i) cs (lstep S T i x dl))) x = i"
        by (rule level_i_fold)
      then show ?thesis by simp
    qed
  next
    case 2
    then show ?thesis by auto
  qed
qed

lemma lrelax_passes:
  "fst (lrelax S T cs d i L)
   \<le> i + (if d then 0 else int (card {c \<in> set cs. i \<le> snd L c}) + 1)"
proof (induction S T cs d i L rule: lrelax.induct)
  case (1 S T cs d i L)
  show ?case
  proof (cases "\<not> d \<and> i < int (length cs) + 10")
    case go: True
    let ?d' = "fst (lpass S T cs i L)"
    let ?L' = "snd (lpass S T cs i L)"
    from go have eq: "lrelax S T cs d i L = lrelax S T cs ?d' (i + 1) ?L'"
      by (subst lrelax.simps) simp
    note IH = "1.IH" [OF go]
    show ?thesis
    proof (cases ?d')
      case True
      with IH go show ?thesis
        unfolding eq by simp
    next
      case False
      with progress_leaves_level_i [of S T i cs "(True, L)"]
      obtain c0 where c0: "c0 \<in> set cs" "snd ?L' c0 = i"
        by (auto simp: lpass_def)
      have "(i \<le> snd ?L' c) = (i \<le> snd L c)" for c
        using lpass_level_cases [of S T cs i L c] by auto
      then have same: "{c \<in> set cs. i \<le> snd ?L' c} = {c \<in> set cs. i \<le> snd L c}"
        by simp
      have "c0 \<in> {c \<in> set cs. i \<le> snd ?L' c}" "c0 \<notin> {c \<in> set cs. i + 1 \<le> snd ?L' c}"
        using c0 by simp_all
      moreover have "{c \<in> set cs. i + 1 \<le> snd ?L' c} \<subseteq> {c \<in> set cs. i \<le> snd ?L' c}"
        by auto
      ultimately have "{c \<in> set cs. i + 1 \<le> snd ?L' c} \<subset> {c \<in> set cs. i \<le> snd ?L' c}"
        by blast
      then have "card {c \<in> set cs. i + 1 \<le> snd ?L' c} < card {c \<in> set cs. i \<le> snd ?L' c}"
        by (intro psubset_card_mono) simp_all
      with IH False go show ?thesis
        unfolding eq same by simp
    qed
  next
    case False
    then have "lrelax S T cs d i L = (i, L)"
      by (subst lrelax.simps) auto
    then show ?thesis by simp
  qed
qed

lemma lrelax_passes_from_0: "fst (lrelax S T cs False 0 L) \<le> int (length cs) + 1"
proof -
  have "card {c \<in> set cs. 0 \<le> snd L c} \<le> card (set cs)"
    by (intro card_mono) auto
  also have "\<dots> \<le> length cs"
    by (rule card_length)
  finally show ?thesis
    using lrelax_passes [of S T cs False 0 L] by simp
qed

subsection \<open>Reset and seed\<close>

lemma fold_seed_source:
  "fold seed_source xs st =
     st\<lparr>site_objs := (\<lambda>s. if s \<in> set xs
                           then (site_objs st s)\<lparr>site_level :=
                                  (if site_level (site_objs st s) = - 1 then 0
                                   else site_level (site_objs st s))\<rparr>
                           else site_objs st s)\<rparr>"
proof (induction xs arbitrary: st)
  case Nil
  show ?case by simp
next
  case (Cons x xs)
  show ?case
    by (simp only: fold.simps comp_apply Cons.IH)
       (auto simp add: seed_source_def upd_site_def fun_eq_iff)
qed

lemma reset_channel_frame:
  "srcs (reset_channel c st) = srcs st"
  "tgts (reset_channel c st) = tgts st"
  "producers (reset_channel c st) = producers st"
  "labels (reset_channel c st) = labels st"
  "nw_sites (reset_channel c st) = nw_sites st"
  "nw_channels (reset_channel c st) = nw_channels st"
  by (auto simp: reset_channel_def fold_seed_source upd_channel_def Let_def srcs_def tgts_def
      producers_def labels_def fun_eq_iff)

lemma reset_channel_levels:
  "levels_of (reset_channel c st) =
     (\<lambda>s. if s \<in> srcs st c \<and> fst (levels_of st) s = - 1 then 0 else fst (levels_of st) s,
      (snd (levels_of st))(c := 1000))"
  by (auto simp: reset_channel_def fold_seed_source upd_channel_def Let_def srcs_def levels_of_def
      fun_eq_iff)

lemma fold_reset_channel_frame:
  "srcs (fold reset_channel cs st) = srcs st"
  "tgts (fold reset_channel cs st) = tgts st"
  "producers (fold reset_channel cs st) = producers st"
  "labels (fold reset_channel cs st) = labels st"
  "nw_sites (fold reset_channel cs st) = nw_sites st"
  "nw_channels (fold reset_channel cs st) = nw_channels st"
  by (induction cs arbitrary: st) (simp_all add: reset_channel_frame)

lemma fold_reset_channel_levels:
  "levels_of (fold reset_channel cs st) =
     (\<lambda>s. if s \<in> (\<Union>c \<in> set cs. srcs st c) \<and> fst (levels_of st) s = - 1 then 0
           else fst (levels_of st) s,
      \<lambda>c. if c \<in> set cs then 1000 else snd (levels_of st) c)"
proof (induction cs arbitrary: st)
  case Nil
  show ?case by simp
next
  case (Cons x cs)
  show ?case
    by (simp only: fold.simps comp_apply Cons.IH reset_channel_frame reset_channel_levels)
       (auto simp add: fun_eq_iff)
qed

lemma fold_reset_site_frame:
  "srcs (fold reset_site xs st) = srcs st"
  "tgts (fold reset_site xs st) = tgts st"
  "producers (fold reset_site xs st) = producers st"
  "labels (fold reset_site xs st) = labels st"
  "nw_sites (fold reset_site xs st) = nw_sites st"
  "nw_channels (fold reset_site xs st) = nw_channels st"
  by (auto simp: fold_reset_site srcs_def tgts_def producers_def labels_def fun_eq_iff)

lemma fold_reset_site_levels:
  "levels_of (fold reset_site xs st) =
     (\<lambda>s. if s \<in> set xs then (if producers st s = None then - 1 else 1000)
           else site_level (site_objs st s),
      \<lambda>c. chan_level (channel_objs st c))"
  by (auto simp: fold_reset_site levels_of_def producers_def labels_def fun_eq_iff)

lemma reset_levels_frame:
  "srcs (reset_levels st) = srcs st"
  "tgts (reset_levels st) = tgts st"
  "producers (reset_levels st) = producers st"
  "labels (reset_levels st) = labels st"
  "nw_sites (reset_levels st) = nw_sites st"
  "nw_channels (reset_levels st) = nw_channels st"
  by (simp_all add: reset_levels_def Let_def fold_reset_channel_frame fold_reset_site_frame)

lemma reset_levels_levels: "levels_of (reset_levels st) = init_levels st"
  by (auto simp add: reset_levels_def Let_def fold_reset_channel_levels fold_reset_site_frame
      fold_reset_site_levels init_levels_def fun_eq_iff)

subsection \<open>Sorting\<close>

lemma map_insort_key:
  "map g (insort_key (\<lambda>x. f (g x)) a xs) = insort_key f (g a) (map g xs)"
  by (induction xs) simp_all

lemma map_sort_key: "map g (sort_key (\<lambda>x. f (g x)) xs) = sort_key f (map g xs)"
  by (induction xs) (simp_all add: map_insort_key)

lemma sort_source_frame:
  "srcs (sort_source c st) = srcs st"
  "tgts (sort_source c st) = tgts st"
  "producers (sort_source c st) = producers st"
  "labels (sort_source c st) = labels st"
  "nw_sites (sort_source c st) = nw_sites st"
  "nw_channels (sort_source c st) = nw_channels st"
  "levels_of (sort_source c st) = levels_of st"
  by (auto simp: sort_source_def upd_channel_def srcs_def tgts_def producers_def labels_def levels_of_def
      fun_eq_iff)

lemma fold_sort_source_frame:
  "srcs (fold sort_source cs st) = srcs st"
  "tgts (fold sort_source cs st) = tgts st"
  "producers (fold sort_source cs st) = producers st"
  "labels (fold sort_source cs st) = labels st"
  "nw_sites (fold sort_source cs st) = nw_sites st"
  "nw_channels (fold sort_source cs st) = nw_channels st"
  "levels_of (fold sort_source cs st) = levels_of st"
  by (induction cs arbitrary: st) (simp_all add: sort_source_frame)

lemma sort_structure_frame:
  "srcs (sort_structure st) = srcs st"
  "tgts (sort_structure st) = tgts st"
  "producers (sort_structure st) = producers st"
  "labels (sort_structure st) = labels st"
  "nw_sites (sort_structure st) = nw_sites st"
  "levels_of (sort_structure st) = levels_of st"
  by (simp_all add: sort_structure_def Let_def fold_sort_source_frame)
     (simp_all add: srcs_def tgts_def producers_def labels_def levels_of_def fun_eq_iff)

lemma sort_structure_channels:
  "map snd (nw_channels (sort_structure st))
   = sort_key (snd (levels_of st)) (map snd (nw_channels st))"
  by (simp add: sort_structure_def Let_def fold_sort_source_frame levels_of_def
      map_sort_key [symmetric])

subsection \<open>compute_order on levels\<close>

lemma compute_order_levels:
  "levels_of (snd (compute_order st)) = snd (final_levels st)"
  using relax_lrelax [of False 0 "reset_levels st"]
  by (simp add: compute_order_def Let_def sort_structure_frame final_levels_def
      reset_levels_frame reset_levels_levels prod_eq_iff)

lemma compute_order_frame:
  "srcs (snd (compute_order st)) = srcs st"
  "tgts (snd (compute_order st)) = tgts st"
  "producers (snd (compute_order st)) = producers st"
  "labels (snd (compute_order st)) = labels st"
  "nw_sites (snd (compute_order st)) = nw_sites st"
  using relax_frame [of False 0 "reset_levels st"]
  by (simp_all add: compute_order_def Let_def sort_structure_frame reset_levels_frame)

lemma compute_order_channels:
  "map snd (nw_channels (snd (compute_order st)))
   = sort_key (snd (snd (final_levels st))) (map snd (nw_channels st))"
  using relax_frame [of False 0 "reset_levels st"] relax_lrelax [of False 0 "reset_levels st"]
  by (simp add: compute_order_def Let_def sort_structure_channels final_levels_def
      reset_levels_frame reset_levels_levels prod_eq_iff)

lemma compute_order_warnings:
  "fst (compute_order st) = diagnostics (fst (final_levels st)) (snd (compute_order st))"
  using relax_lrelax [of False 0 "reset_levels st"]
  by (simp add: compute_order_def Let_def final_levels_def
      reset_levels_frame reset_levels_levels prod_eq_iff)

lemmas order_defs = compute_order_def reset_levels_def reset_site_def reset_channel_def
  seed_source_def relax.simps relax_pass_def relax_channel_def promote_targets_def
  sort_structure_def sort_source_def diagnostics_def

subsection \<open>What the loop does not touch\<close>

lemma lstep_untouched:
  "s \<notin> T c' \<Longrightarrow> fst (snd (lstep S T i c' dl)) s = fst (snd dl) s"
  "c \<noteq> c' \<Longrightarrow> snd (snd (lstep S T i c' dl)) c = snd (snd dl) c"
  by (simp_all add: lstep_def)

lemma fold_lstep_untouched:
  "(\<And>c'. c' \<in> set cs \<Longrightarrow> s \<notin> T c')
   \<Longrightarrow> fst (snd (fold (lstep S T i) cs dl)) s = fst (snd dl) s"
  "c \<notin> set cs \<Longrightarrow> snd (snd (fold (lstep S T i) cs dl)) c = snd (snd dl) c"
  by (induction cs arbitrary: dl) (simp_all add: lstep_untouched)

lemma lrelax_untouched:
  "((\<forall>c' \<in> set cs. s \<notin> T c') \<longrightarrow> fst (snd (lrelax S T cs d i L)) s = fst L s)
   \<and> (c \<notin> set cs \<longrightarrow> snd (snd (lrelax S T cs d i L)) c = snd L c)"
proof (induction S T cs d i L rule: lrelax.induct)
  case (1 S T cs d i L)
  show ?case
  proof (cases "\<not> d \<and> i < int (length cs) + 10")
    case True
    then have eq: "lrelax S T cs d i L
       = lrelax S T cs (fst (lpass S T cs i L)) (i + 1) (snd (lpass S T cs i L))"
      by (subst lrelax.simps) simp
    have "fst (snd (lpass S T cs i L)) s = fst L s" if "\<forall>c' \<in> set cs. s \<notin> T c'"
      using that fold_lstep_untouched(1) [where cs = cs and s = s and T = T and dl = "(True, L)"]
      by (simp add: lpass_def)
    moreover have "snd (snd (lpass S T cs i L)) c = snd L c" if "c \<notin> set cs"
      using that fold_lstep_untouched(2) [where cs = cs and c = c and dl = "(True, L)"]
      by (simp add: lpass_def)
    ultimately show ?thesis
      using "1.IH" [OF True] unfolding eq by simp
  next
    case False
    then have "lrelax S T cs d i L = (i, L)"
      by (subst lrelax.simps) auto
    then show ?thesis by simp
  qed
qed

subsection \<open>The second run\<close>

lemma init_levels_again:
  assumes "targets_registered st"
  shows "init_levels (snd (compute_order st)) = init_levels st"
proof -
  let ?st' = "snd (compute_order st)"
  let ?cs = "map snd (nw_channels st)"
  have chans: "snd ` set (nw_channels ?st') = snd ` set (nw_channels st)"
    using compute_order_channels [of st]
    by (metis set_map set_sort)
  have site: "site_level (site_objs ?st' s) = fst (init_levels st) s"
    if "s \<notin> snd ` set (nw_sites st)" for s
  proof -
    have "\<forall>c' \<in> set ?cs. s \<notin> tgts st c'"
      using assms that by (auto simp: targets_registered_def tgts_def)
    with lrelax_untouched [where cs = ?cs and s = s and T = "tgts st" and S = "srcs st"
        and d = False and i = 0 and L = "init_levels st"]
    have "fst (snd (final_levels st)) s = fst (init_levels st) s"
      by (simp add: final_levels_def)
    moreover have "fst (levels_of ?st') s = fst (snd (final_levels st)) s"
      by (simp add: compute_order_levels)
    ultimately show ?thesis
      by (simp add: levels_of_def)
  qed
  have chan: "chan_level (channel_objs ?st' c) = chan_level (channel_objs st c)"
    if "c \<notin> snd ` set (nw_channels st)" for c
  proof -
    from that have "c \<notin> set ?cs" by simp
    with lrelax_untouched [where cs = ?cs and c = c and T = "tgts st" and S = "srcs st"
        and d = False and i = 0 and L = "init_levels st"]
    have "snd (snd (final_levels st)) c = snd (init_levels st) c"
      by (simp add: final_levels_def)
    moreover have "snd (levels_of ?st') c = snd (snd (final_levels st)) c"
      by (simp add: compute_order_levels)
    ultimately show ?thesis
      using that by (simp add: levels_of_def init_levels_def)
  qed
  have "fst (init_levels ?st') s = fst (init_levels st) s" for s
  proof (cases "s \<in> snd ` set (nw_sites st)")
    case True
    then show ?thesis
      by (simp add: init_levels_def compute_order_frame chans Let_def)
  next
    case False
    with site [OF False] show ?thesis
      by (simp add: init_levels_def compute_order_frame chans Let_def)
  qed
  moreover have "snd (init_levels ?st') c = snd (init_levels st) c" for c
    using chan [of c] by (simp add: init_levels_def chans)
  ultimately show ?thesis
    by (simp add: prod_eq_iff fun_eq_iff)
qed

lemma final_levels_again:
  assumes "targets_registered st"
  shows "final_levels (snd (compute_order st)) = final_levels st"
proof -
  let ?cs = "map snd (nw_channels st)"
  have "final_levels (snd (compute_order st))
        = lrelax (srcs st) (tgts st)
            (sort_key (snd (snd (lrelax (srcs st) (tgts st) ?cs False 0 (init_levels st)))) ?cs)
            False 0 (init_levels st)"
    by (simp add: final_levels_def [of "snd (compute_order st)"] compute_order_frame
        compute_order_channels init_levels_again [OF assms])
       (simp add: final_levels_def)
  also have "\<dots> = final_levels st"
    by (simp add: lrelax_sorted final_levels_def)
  finally show ?thesis .
qed

text \<open>
  C4 (amended).  When every target of every channel of the mapping is a site of the
  site mapping, a second \<open>compute_order\<close> right after the first gives every site and
  every channel the level the first one gave it.
\<close>

theorem compute_order_twice:
  "targets_registered st \<Longrightarrow>
   (\<forall>s. site_level (site_objs (snd (compute_order (snd (compute_order st)))) s)
          = site_level (site_objs (snd (compute_order st)) s))
   \<and> (\<forall>c. chan_level (channel_objs (snd (compute_order (snd (compute_order st)))) c)
          = chan_level (channel_objs (snd (compute_order st)) c))"
proof -
  assume "targets_registered st"
  then have "levels_of (snd (compute_order (snd (compute_order st))))
             = levels_of (snd (compute_order st))"
    by (simp add: compute_order_levels final_levels_again)
  then show ?thesis
    by (simp add: levels_of_def prod_eq_iff fun_eq_iff)
qed

lemma compute_order_site_level:
  "site_level (site_objs (snd (compute_order st)) s) = fst (snd (final_levels st)) s"
  using compute_order_levels [of st] by (simp add: levels_of_def prod_eq_iff fun_eq_iff)

lemma compute_order_chan_level:
  "chan_level (channel_objs (snd (compute_order st)) c) = snd (snd (final_levels st)) c"
  using compute_order_levels [of st] by (simp add: levels_of_def prod_eq_iff fun_eq_iff)

lemmas level_defs = final_levels_def init_levels_def lrelax.simps lpass_def lstep_def blocked_def
  srcs_def tgts_def producers_def labels_def

lemma stage1_ordered:
  "channel_ix (snd (compute_order net_stage1)) = 1"
  "nw_channels (snd (compute_order net_stage1)) = [(''_c0'', 0), (''_c1'', 1)]"
  "nw_sites (snd (compute_order net_stage1)) = [(''_s0'', 0), (''_s1'', 1)]"
  "chan_source (channel_objs (snd (compute_order net_stage1)) 0) = []"
  "chan_target (channel_objs (snd (compute_order net_stage1)) 0) = {3}"
  "chan_source (channel_objs (snd (compute_order net_stage1)) (Suc 0)) = [1]"
  "chan_target (channel_objs (snd (compute_order net_stage1)) (Suc 0)) = {2}"
  "site_producer (site_objs (snd (compute_order net_stage1)) 0) = None"
  "site_producer (site_objs (snd (compute_order net_stage1)) (Suc 0)) = None"
  "site_level (site_objs (snd (compute_order net_stage1)) 2) = 1"
  "site_level (site_objs (snd (compute_order net_stage1)) 3) = 1"
  by (simp_all add: net_stage1_def eval_defs order_defs)

lemma staged:
  "snd ` set (nw_sites net_staged) = {0, 1}"
  "map snd (nw_channels net_staged) = [0, 1, 2]"
  "chan_source (channel_objs net_staged 0) = [2]"
  "chan_source (channel_objs net_staged (Suc 0)) = [1]"
  "chan_source (channel_objs net_staged 2) = [0]"
  "chan_target (channel_objs net_staged 0) = {3}"
  "chan_target (channel_objs net_staged (Suc 0)) = {2}"
  "chan_target (channel_objs net_staged 2) = {1}"
  "site_producer (site_objs net_staged 0) = None"
  "site_producer (site_objs net_staged (Suc 0)) = Some 2"
  "site_level (site_objs net_staged 2) = 1"
  "site_level (site_objs net_staged 3) = 1"
  by (simp_all add: net_staged_def stage1_ordered site_by_key_def Site_init_def Channel_init_def
      Channel_alloc_def channel_create_def upd_site_def upd_channel_def dict_set_def Let_def
      dec.simps)

lemma staged':
  "snd ` set (nw_channels net_staged) = {0, 1, 2}"
  using staged(2) by (metis list.set(1) list.set(2) set_map insert_commute)

lemma staged_first:
  "snd (snd (final_levels net_staged)) 0 = 1"
  "snd (snd (final_levels net_staged)) (Suc 0) = 1"
  "snd (snd (final_levels net_staged)) 2 = 0"
  "fst (snd (final_levels net_staged)) 2 = 2"
  "fst (snd (final_levels net_staged)) 3 = 2"
  by (simp_all add: level_defs staged staged')

lemma compute_order_channel_set:
  "snd ` set (nw_channels (snd (compute_order st))) = snd ` set (nw_channels st)"
  using compute_order_channels [of st] by (metis set_map set_sort)

lemmas again_defs = init_levels_def lrelax.simps lpass_def lstep_def blocked_def
  srcs_def tgts_def producers_def labels_def compute_order_frame compute_order_channels
  compute_order_channel_set compute_order_site_level compute_order_chan_level

lemma staged_second:
  "snd (snd (final_levels (snd (compute_order net_staged)))) 0 = 2"
  "fst (snd (final_levels (snd (compute_order net_staged)))) 3 = 3"
  by (simp_all add: final_levels_def [of "snd (compute_order net_staged)"] again_defs
      staged staged' staged_first)

text \<open>
  The claim as stated fails on targets that are not in the site mapping: their levels
  are never reset.  In \<open>net_staged\<close> the sites \<open>t\<close> and \<open>u\<close> are made with \<open>Site\<close>
  directly and keep the levels of an earlier \<open>compute_order\<close>; the first call now puts
  channel \<open>_c0\<close> at 1 and \<open>u\<close> at 2, the second at 2 and 3.
\<close>

theorem compute_order_twice_counterexample:
  "chan_level (channel_objs (snd (compute_order net_staged)) 0) = 1
   \<and> chan_level (channel_objs (snd (compute_order (snd (compute_order net_staged)))) 0) = 2
   \<and> site_level (site_objs (snd (compute_order net_staged)) 3) = 2
   \<and> site_level (site_objs (snd (compute_order (snd (compute_order net_staged)))) 3) = 3"
  by (simp add: compute_order_site_level compute_order_chan_level staged_first staged_second)

lemma chain3:
  "snd ` set (nw_sites (net_chain [''A'', ''B'', ''C''])) = {0, 1, 2}"
  "map snd (nw_channels (net_chain [''A'', ''B'', ''C''])) = [0, 1]"
  "snd ` set (nw_channels (net_chain [''A'', ''B'', ''C''])) = {0, 1}"
  "chan_source (channel_objs (net_chain [''A'', ''B'', ''C'']) 0) = [0]"
  "chan_source (channel_objs (net_chain [''A'', ''B'', ''C'']) (Suc 0)) = [1]"
  "chan_target (channel_objs (net_chain [''A'', ''B'', ''C'']) 0) = {1}"
  "chan_target (channel_objs (net_chain [''A'', ''B'', ''C'']) (Suc 0)) = {2}"
  "site_producer (site_objs (net_chain [''A'', ''B'', ''C'']) 0) = None"
  "site_producer (site_objs (net_chain [''A'', ''B'', ''C'']) (Suc 0)) = Some 0"
  "site_producer (site_objs (net_chain [''A'', ''B'', ''C'']) 2) = Some 1"
  by (simp_all add: eval_defs insert_commute)

theorem compute_order_twice_witness:
  "targets_registered (net_chain [''A'', ''B'', ''C''])
   \<and> site_level (site_objs (snd (compute_order (net_chain [''A'', ''B'', ''C'']))) 2) = 2
   \<and> site_level (site_objs
         (snd (compute_order (snd (compute_order (net_chain [''A'', ''B'', ''C'']))))) 2) = 2
   \<and> chan_level (channel_objs (snd (compute_order (net_chain [''A'', ''B'', ''C'']))) 1) = 1
   \<and> chan_level (channel_objs
         (snd (compute_order (snd (compute_order (net_chain [''A'', ''B'', ''C'']))))) 1) = 1"
proof -
  let ?st = "net_chain [''A'', ''B'', ''C'']"
  have a: "targets_registered ?st"
    by (simp add: targets_registered_def chain3)
  have b: "site_level (site_objs (snd (compute_order ?st)) 2) = 2"
    "chan_level (channel_objs (snd (compute_order ?st)) 1) = 1"
    by (simp_all add: compute_order_site_level compute_order_chan_level level_defs chain3)
  from compute_order_twice [OF a] a b show ?thesis
    by simp
qed

subsection \<open>Channels that wait for each other\<close>

lemma stuck_lstep:
  assumes st: "stuck S T cs B i (snd dl)" and mem: "c' \<in> set cs"
  shows "stuck S T cs B i (snd (lstep S T i c' dl))"
proof (cases "blocked S i (snd dl) c'")
  case True
  with st show ?thesis by (simp add: lstep_def)
next
  case False
  let ?L = "snd dl"
  let ?L' = "(\<lambda>s. if s \<in> T c' then i + 1 else fst ?L s, (snd ?L)(c' := i))"
  from False have new: "snd (lstep S T i c' dl) = ?L'"
    by (simp add: lstep_def)
  from False have ready: "i \<le> snd ?L c'" "\<And>s. s \<in> S c' \<Longrightarrow> fst ?L s \<le> i"
    by (auto simp: blocked_def not_less)
  have at_cap: "i = 1000" if "c' \<in> B"
  proof -
    from st that have l: "snd ?L c' = 1000"
      and w: "i \<le> 1000 \<longrightarrow> (\<exists>s \<in> S c'. 1000 \<le> fst ?L s)"
      by (auto simp: stuck_def)
    from l ready(1) have "i \<le> 1000" by simp
    with w obtain s where "s \<in> S c'" "1000 \<le> fst ?L s" by blast
    with ready(2) [of s] \<open>i \<le> 1000\<close> show ?thesis by simp
  qed
  have "snd ?L' c = 1000
      \<and> (i \<le> 1000 \<longrightarrow>
           (\<exists>s \<in> S c. 1000 \<le> fst ?L' s \<and> (\<forall>c'' \<in> set cs. s \<in> T c'' \<longrightarrow> c'' \<in> B)))"
    if c: "c \<in> B" for c
  proof
    from st c have "snd ?L c = 1000" by (simp add: stuck_def)
    with at_cap c show "snd ?L' c = 1000" by auto
  next
    show "i \<le> 1000 \<longrightarrow>
           (\<exists>s \<in> S c. 1000 \<le> fst ?L' s \<and> (\<forall>c'' \<in> set cs. s \<in> T c'' \<longrightarrow> c'' \<in> B))"
    proof
      assume "i \<le> 1000"
      with st c obtain s where s: "s \<in> S c" "1000 \<le> fst ?L s"
        "\<forall>c'' \<in> set cs. s \<in> T c'' \<longrightarrow> c'' \<in> B"
        by (auto simp: stuck_def)
      have "1000 \<le> fst ?L' s"
      proof (cases "s \<in> T c'")
        case True
        with s(3) mem have "c' \<in> B" by blast
        with at_cap True show ?thesis by simp
      next
        case False
        with s(2) show ?thesis by simp
      qed
      with s show "\<exists>s \<in> S c. 1000 \<le> fst ?L' s \<and> (\<forall>c'' \<in> set cs. s \<in> T c'' \<longrightarrow> c'' \<in> B)"
        by blast
    qed
  qed
  then show ?thesis
    unfolding new stuck_def by blast
qed

lemma stuck_fold:
  "stuck S T cs B i (snd dl) \<Longrightarrow> set xs \<subseteq> set cs
   \<Longrightarrow> stuck S T cs B i (snd (fold (lstep S T i) xs dl))"
  by (induction xs arbitrary: dl) (simp_all add: stuck_lstep)

lemma stuck_lrelax:
  "stuck S T cs B i L \<Longrightarrow> c \<in> B \<Longrightarrow> snd (snd (lrelax S T cs d i L)) c = 1000"
proof (induction S T cs d i L rule: lrelax.induct)
  case (1 S T cs d i L)
  show ?case
  proof (cases "\<not> d \<and> i < int (length cs) + 10")
    case True
    then have eq: "lrelax S T cs d i L
       = lrelax S T cs (fst (lpass S T cs i L)) (i + 1) (snd (lpass S T cs i L))"
      by (subst lrelax.simps) simp
    have "stuck S T cs B i (snd (lpass S T cs i L))"
      using stuck_fold [of S T cs B i "(True, L)" cs] "1.prems"(1) by (simp add: lpass_def)
    then have "stuck S T cs B (i + 1) (snd (lpass S T cs i L))"
      by (auto simp: stuck_def)
    from "1.IH" [OF True this "1.prems"(2)] show ?thesis
      unfolding eq .
  next
    case False
    then have "lrelax S T cs d i L = (i, L)"
      by (subst lrelax.simps) auto
    with "1.prems" show ?thesis
      by (simp add: stuck_def)
  qed
qed

lemma dependency_cycle_stuck:
  assumes "dependency_cycle st B"
  shows "stuck (srcs st) (tgts st) (map snd (nw_channels st)) B 0 (init_levels st)"
  unfolding stuck_def
proof (intro ballI conjI impI)
  fix c assume c: "c \<in> B"
  with assms show "snd (init_levels st) c = 1000"
    by (auto simp: dependency_cycle_def init_levels_def)
  from assms c obtain s where s: "s \<in> set (chan_source (channel_objs st c))"
    "s \<in> snd ` set (nw_sites st)" "site_producer (site_objs st s) \<noteq> None"
    "\<forall>c' \<in> snd ` set (nw_channels st). s \<in> chan_target (channel_objs st c') \<longrightarrow> c' \<in> B"
    unfolding dependency_cycle_def by blast
  from s(2,3) have "fst (init_levels st) s = 1000"
    by (auto simp add: init_levels_def producers_def labels_def Let_def)
  then have "1000 \<le> fst (init_levels st) s"
    by simp
  moreover from s(1) have "s \<in> srcs st c"
    by (simp add: srcs_def)
  moreover from s(4) have "\<forall>c' \<in> set (map snd (nw_channels st)). s \<in> tgts st c' \<longrightarrow> c' \<in> B"
    by (simp add: tgts_def)
  ultimately
  show "\<exists>s \<in> srcs st c. 1000 \<le> fst (init_levels st) s
          \<and> (\<forall>c' \<in> set (map snd (nw_channels st)). s \<in> tgts st c' \<longrightarrow> c' \<in> B)"
    by blast
qed

subsection \<open>The failure warning\<close>

lemma length_nw_channels_compute_order:
  "length (nw_channels (snd (compute_order st))) = length (nw_channels st)"
  using arg_cong [OF compute_order_channels [of st], of length] by simp

lemma compute_order_never_failed: "FailedStructure \<notin> set (fst (fst (compute_order st)))"
  using lrelax_passes_from_0 [of "srcs st" "tgts st" "map snd (nw_channels st)" "init_levels st"]
  by (simp add: compute_order_warnings diagnostics_def length_nw_channels_compute_order
      final_levels_def Let_def)

text \<open>
  \<open>compute_order\<close> changes no label, source or target; when the sites of the network
  and the sources and targets of its channels have labels, printing the warnings raises
  nothing.
\<close>

lemma compute_order_prints:
  "site_prints s (snd (compute_order st)) = site_prints s st"
  "channel_prints c (snd (compute_order st)) = channel_prints c st"
proof -
  have l: "site_label (site_objs (snd (compute_order st)) x) = site_label (site_objs st x)" for x
    using compute_order_frame(4) [of st] by (simp add: labels_def fun_eq_iff)
  have s: "set (chan_source (channel_objs (snd (compute_order st)) c))
           = set (chan_source (channel_objs st c))"
    using compute_order_frame(1) [of st] by (simp add: srcs_def fun_eq_iff)
  have t: "chan_target (channel_objs (snd (compute_order st)) c) = chan_target (channel_objs st c)"
    using compute_order_frame(2) [of st] by (simp add: tgts_def fun_eq_iff)
  show "site_prints s (snd (compute_order st)) = site_prints s st"
    by (simp add: site_prints_def l)
  show "channel_prints c (snd (compute_order st)) = channel_prints c st"
    by (simp add: channel_prints_def site_prints_def l s t list_all_iff)
qed

lemma compute_order_raises_nothing:
  assumes "labels_set st"
  shows "snd (fst (compute_order st)) = None"
proof -
  let ?st' = "snd (compute_order st)"
  have "list_all (\<lambda>s. site_prints s ?st')
          (filter (\<lambda>s. site_level (site_objs ?st' s) = - 1) (map snd (nw_sites ?st')))"
    using assms
    by (auto simp: list_all_iff labels_set_def compute_order_prints compute_order_frame)
  moreover have "list_all (\<lambda>c. channel_prints c ?st')
          (filter (\<lambda>c. chan_level (channel_objs ?st' c) = 1000) (map snd (nw_channels ?st')))"
    using assms compute_order_channel_set [of st]
    by (auto simp: list_all_iff labels_set_def compute_order_prints)
  ultimately show ?thesis
    by (simp add: compute_order_warnings diagnostics_def Let_def)
qed

text \<open>
  C5 (amended).  Every channel of a dependency cycle is left at 1000 and the cycle is
  reported among the unreachable channels; the structure failure is not reported (it
  never is).
\<close>

theorem cycle_stays_unreachable:
  assumes "dependency_cycle st B"
  shows "(\<forall>c \<in> B. chan_level (channel_objs (snd (compute_order st)) c) = 1000)
   \<and> FailedStructure \<notin> set (fst (fst (compute_order st)))
   \<and> (snd (fst (compute_order st)) = None \<longrightarrow>
        (\<exists>cs. UnreachableChannels cs \<in> set (fst (fst (compute_order st))) \<and> B \<subseteq> set cs))"
proof -
  let ?st' = "snd (compute_order st)"
  have lev: "chan_level (channel_objs ?st' c) = 1000" if "c \<in> B" for c
    using stuck_lrelax [OF dependency_cycle_stuck [OF assms] that]
    by (simp add: compute_order_chan_level final_levels_def)
  have sub: "B \<subseteq> snd ` set (nw_channels ?st')"
    using assms by (simp add: compute_order_channel_set dependency_cycle_def)
  let ?un = "filter (\<lambda>c. chan_level (channel_objs ?st' c) = 1000) (map snd (nw_channels ?st'))"
  from assms obtain c0 where "c0 \<in> B"
    by (auto simp: dependency_cycle_def)
  with lev sub have "c0 \<in> set ?un"
    by auto
  then have ne: "?un \<noteq> []"
    by (metis empty_iff empty_set)
  have "UnreachableChannels ?un \<in> set (fst (fst (compute_order st)))"
    if "snd (fst (compute_order st)) = None"
    using that ne
    by (simp add: compute_order_warnings diagnostics_def Let_def split: if_splits)
  moreover from lev sub have "B \<subseteq> set ?un"
    by auto
  ultimately show ?thesis
    using lev compute_order_never_failed [of st] by blast
qed

lemma cycle2:
  "snd ` set (nw_sites net_cycle) = {0, 1}"
  "snd ` set (nw_channels net_cycle) = {0, 1}"
  "map snd (nw_channels net_cycle) = [0, 1]"
  "map snd (nw_sites net_cycle) = [0, 1]"
  "chan_source (channel_objs net_cycle 0) = [0]"
  "chan_source (channel_objs net_cycle (Suc 0)) = [1]"
  "chan_target (channel_objs net_cycle 0) = {1}"
  "chan_target (channel_objs net_cycle (Suc 0)) = {0}"
  "site_producer (site_objs net_cycle 0) = Some 1"
  "site_producer (site_objs net_cycle (Suc 0)) = Some 0"
  by (simp_all add: net_cycle_def eval_defs insert_commute)

text \<open>
  The claim as stated fails on the smallest cycle, \<open>A\<close> to \<open>B\<close> and back: the loop
  stops after one pass and the only warning names the unreachable channels.
\<close>

theorem cycle_stays_unreachable_counterexample:
  "dependency_cycle net_cycle {0, 1}
   \<and> fst (compute_order net_cycle) = ([UnreachableChannels [0, 1]], None)"
proof -
  have "dependency_cycle net_cycle {0, 1}"
    by (simp add: dependency_cycle_def cycle2)
  moreover have "fst (compute_order net_cycle) = ([UnreachableChannels [0, 1]], None)"
    by (simp add: net_cycle_def eval_defs order_defs prints_defs)
  ultimately show ?thesis by simp
qed

theorem cycle_stays_unreachable_witness:
  "dependency_cycle net_cycle {0, 1}
   \<and> chan_level (channel_objs (snd (compute_order net_cycle)) 0) = 1000
   \<and> chan_level (channel_objs (snd (compute_order net_cycle)) 1) = 1000
   \<and> fst (compute_order net_cycle) = ([UnreachableChannels [0, 1]], None)"
proof -
  have a: "dependency_cycle net_cycle {0, 1}"
    by (simp add: dependency_cycle_def cycle2)
  have b: "fst (compute_order net_cycle) = ([UnreachableChannels [0, 1]], None)"
    by (simp add: net_cycle_def eval_defs order_defs prints_defs)
  from cycle_stays_unreachable [OF a] a b show ?thesis
    by simp
qed

subsection \<open>A linear chain\<close>

lemma lrelax_step:
  "\<not> d \<Longrightarrow> i < int (length cs) + 10 \<Longrightarrow>
   lrelax S T cs d i L
   = lrelax S T cs (fst (lpass S T cs i L)) (i + 1) (snd (lpass S T cs i L))"
  by (subst lrelax.simps) simp

lemma lrelax_stop: "d \<Longrightarrow> lrelax S T cs d i L = (i, L)"
  by (subst lrelax.simps) simp

lemma chain_pass:
  assumes S: "\<forall>c < n - 1. S c = {c}" and T: "\<forall>c < n - 1. T c = {Suc c}"
    and k: "k < n - 1" and n: "n \<le> 1002" and L: "chain_levels n k L"
  shows "fst (lpass S T [0..<n - 1] (int k) L) = False"
    and "chain_levels n (Suc k) (snd (lpass S T [0..<n - 1] (int k) L))"
proof -
  let ?L1 = "(\<lambda>s. if s \<in> T k then int k + 1 else fst L s, (snd L)(k := int k))"
  have split: "[0..<n - 1] = [0..<k] @ k # [Suc k..<n - 1]"
    using k upt_add_eq_append [of 0 k "n - 1 - k"] by (simp add: upt_conv_Cons)
  have before: "fold (lstep S T (int k)) [0..<k] (True, L) = (True, L)"
  proof (rule fold_all_blocked)
    fix c assume "c \<in> set [0..<k]"
    with k L show "blocked S (int k) (snd (True, L)) c"
      by (simp add: blocked_def chain_levels_def)
  qed
  have "\<not> blocked S (int k) L k"
    using S k n L by (simp add: blocked_def chain_levels_def)
  then have at: "lstep S T (int k) k (True, L) = (False, ?L1)"
    by (rule lstep_fires)
  have after: "fold (lstep S T (int k)) [Suc k..<n - 1] (False, ?L1) = (False, ?L1)"
  proof (rule fold_all_blocked)
    fix c assume "c \<in> set [Suc k..<n - 1]"
    then have c: "k < c" "c < n - 1" by simp_all
    with S have Sc: "S c = {c}" by simp
    from c have cn: "c < n" by simp
    from c n have "int k < 1000" by simp
    with c cn L T k have "int k < fst ?L1 c"
      by (simp add: chain_levels_def)
    with Sc show "blocked S (int k) (snd (False, ?L1)) c"
      by (simp add: blocked_def)
  qed
  have "lpass S T [0..<n - 1] (int k) L
        = fold (lstep S T (int k)) ([0..<k] @ k # [Suc k..<n - 1]) (True, L)"
    using split by (simp only: lpass_def)
  also have "\<dots> = (False, ?L1)"
    by (simp only: fold_append fold.simps comp_apply before at after)
  finally have pass: "lpass S T [0..<n - 1] (int k) L = (False, ?L1)" .
  show "fst (lpass S T [0..<n - 1] (int k) L) = False"
    by (simp only: pass fst_conv)
  have "chain_levels n (Suc k) ?L1"
    using L T k by (auto simp: chain_levels_def)
  then show "chain_levels n (Suc k) (snd (lpass S T [0..<n - 1] (int k) L))"
    by (simp only: pass snd_conv)
qed

lemma chain_last_pass:
  assumes L: "chain_levels n (n - 1) L"
  shows "lpass S T [0..<n - 1] (int (n - 1)) L = (True, L)"
  unfolding lpass_def
proof (rule fold_all_blocked)
  fix c assume "c \<in> set [0..<n - 1]"
  then have c: "c < n - 1" by simp
  with L have "snd L c = int c"
    by (simp add: chain_levels_def)
  moreover from c have "int c < int (n - 1)"
    by simp
  ultimately show "blocked S (int (n - 1)) (snd (True, L)) c"
    by (simp only: blocked_def snd_conv) simp
qed

lemma chain_lrelax:
  assumes S: "\<forall>c < n - 1. S c = {c}" and T: "\<forall>c < n - 1. T c = {Suc c}"
    and n: "n \<le> 1002" and k: "k \<le> n - 1"
  shows "chain_levels n k L
    \<Longrightarrow> chain_levels n (n - 1) (snd (lrelax S T [0..<n - 1] False (int k) L))"
  using k
proof (induction k arbitrary: L rule: inc_induct)
  case base
  have go: "int (n - 1) < int (length [0..<n - 1]) + 10"
    by simp
  have "lrelax S T [0..<n - 1] False (int (n - 1)) L
        = lrelax S T [0..<n - 1] (fst (lpass S T [0..<n - 1] (int (n - 1)) L)) (int (n - 1) + 1)
            (snd (lpass S T [0..<n - 1] (int (n - 1)) L))"
    using go by (intro lrelax_step) simp_all
  also have "lpass S T [0..<n - 1] (int (n - 1)) L = (True, L)"
    using base by (rule chain_last_pass)
  finally have "lrelax S T [0..<n - 1] False (int (n - 1)) L = (int (n - 1) + 1, L)"
    by (simp add: lrelax_stop)
  with base show ?case
    by simp
next
  case (step k)
  let ?L' = "snd (lpass S T [0..<n - 1] (int k) L)"
  have go: "int k < int (length [0..<n - 1]) + 10"
    using step.hyps(2) by simp
  have "lrelax S T [0..<n - 1] False (int k) L
        = lrelax S T [0..<n - 1] (fst (lpass S T [0..<n - 1] (int k) L)) (int k + 1) ?L'"
    using go by (intro lrelax_step) simp_all
  also have "\<dots> = lrelax S T [0..<n - 1] False (int (Suc k)) ?L'"
    using chain_pass(1) [OF S T step.hyps(2) n step.prems] by (simp add: add.commute)
  finally have eq: "lrelax S T [0..<n - 1] False (int k) L
      = lrelax S T [0..<n - 1] False (int (Suc k)) ?L'" .
  have "chain_levels n (Suc k) ?L'"
    using S T step.hyps(2) n step.prems by (rule chain_pass(2))
  then have "chain_levels n (n - 1) (snd (lrelax S T [0..<n - 1] False (int (Suc k)) ?L'))"
    by (rule step.IH)
  then show ?case
    unfolding eq .
qed

lemma linear_chain_init:
  assumes "linear_chain n st" and "2 \<le> n"
  shows "chain_levels n 0 (init_levels st)"
proof -
  from assms(1) have sites: "snd ` set (nw_sites st) = {0..<n}"
    and chans: "snd ` set (nw_channels st) = {0..<n - 1}"
    unfolding linear_chain_def by (metis set_map set_upt)+
  from assms(1) have src: "\<And>c. c < n - 1 \<Longrightarrow> srcs st c = {c}"
    and prod: "\<And>s. s < n \<Longrightarrow> producers st s = (if s = 0 then None else Some (s - 1))"
    by (simp_all add: linear_chain_def srcs_def producers_def labels_def)
  from assms(2) have first: "0 < n - 1"
    by simp
  then have "srcs st 0 = {0}"
    by (rule src)
  with first have zero: "0 \<in> (\<Union>c \<in> {0..<n - 1}. srcs st c)"
    by (intro UN_I [of 0]) simp_all
  have "fst (init_levels st) s = (if s \<le> 0 then int s else 1000)" if "s < n" for s
    using that prod [OF that] zero by (auto simp: init_levels_def sites chans Let_def)
  moreover have "snd (init_levels st) c = 1000" if "c < n - 1" for c
    using that by (simp add: init_levels_def chans)
  ultimately show ?thesis
    by (simp add: chain_levels_def)
qed

lemma linear_chain_final_levels:
  assumes "linear_chain n st" and "2 \<le> n" and "n \<le> 1002"
  shows "chain_levels n (n - 1) (snd (final_levels st))"
proof -
  from assms(1) have S: "\<forall>c < n - 1. srcs st c = {c}" and T: "\<forall>c < n - 1. tgts st c = {Suc c}"
    and cs: "map snd (nw_channels st) = [0..<n - 1]"
    by (simp_all add: linear_chain_def srcs_def tgts_def)
  show ?thesis
    using chain_lrelax [OF S T assms(3) le0 linear_chain_init [OF assms(1,2)]]
    by (simp add: final_levels_def cs)
qed

lemma chain_levels_final:
  assumes "chain_levels n (n - 1) (snd (final_levels st))"
  shows "(\<forall>s < n. site_level (site_objs (snd (compute_order st)) s) = int s)
   \<and> (\<forall>c < n - 1. chan_level (channel_objs (snd (compute_order st)) c) = int c)"
  using assms
  by (auto simp: chain_levels_def compute_order_site_level compute_order_chan_level)






subsection \<open>No channel level above the sentinel\<close>

text \<open>
  A channel only takes the step at which it is resolved when its level, 1000 since the
  reset, is not below that step: no channel of the mapping ends above 1000, and in a
  chain of more than 1002 sites channel 1001 cannot end at 1001.
\<close>

lemma lstep_level_le: "snd (snd (lstep S T i c' dl)) c \<le> snd (snd dl) c"
  by (auto simp: lstep_def blocked_def)

lemma fold_level_le: "snd (snd (fold (lstep S T i) cs dl)) c \<le> snd (snd dl) c"
proof (induction cs arbitrary: dl)
  case Nil
  show ?case by simp
next
  case (Cons x cs)
  from Cons.IH [of "lstep S T i x dl"] lstep_level_le [of S T i x dl c] show ?case
    by simp
qed

lemma lrelax_level_le: "snd (snd (lrelax S T cs d i L)) c \<le> snd L c"
proof (induction S T cs d i L rule: lrelax.induct)
  case (1 S T cs d i L)
  show ?case
  proof (cases "\<not> d \<and> i < int (length cs) + 10")
    case True
    then have eq: "lrelax S T cs d i L
       = lrelax S T cs (fst (lpass S T cs i L)) (i + 1) (snd (lpass S T cs i L))"
      by (simp add: lrelax_step)
    from "1.IH" [OF True] fold_level_le [of S T i cs "(True, L)" c] show ?thesis
      unfolding eq by (simp add: lpass_def)
  next
    case False
    then have "lrelax S T cs d i L = (i, L)"
      by (subst lrelax.simps) auto
    then show ?thesis by simp
  qed
qed

lemma channel_level_at_most_sentinel:
  "c \<in> snd ` set (nw_channels st)
   \<Longrightarrow> chan_level (channel_objs (snd (compute_order st)) c) \<le> 1000"
  using lrelax_level_le [of "srcs st" "tgts st" "map snd (nw_channels st)" False 0
      "init_levels st" c]
  by (simp add: compute_order_chan_level final_levels_def init_levels_def)

lemma linear_chain_too_long:
  assumes "linear_chain n st" and "1003 \<le> n"
  shows "chan_level (channel_objs (snd (compute_order st)) 1001) \<le> 1000"
proof -
  from assms(1) have "snd ` set (nw_channels st) = {0..<n - 1}"
    unfolding linear_chain_def by (metis set_map set_upt)
  with assms(2) have "1001 \<in> snd ` set (nw_channels st)"
    by simp
  then show ?thesis
    by (rule channel_level_at_most_sentinel)
qed

subsection \<open>The chain that \<open>Network.__init__\<close> builds\<close>

text \<open>
  \<open>Network(site_ids=names)\<close> builds a linear chain of \<open>length names\<close> sites when no
  name is a key of the site mapping at its turn; the keys are the generated identifiers,
  which start with \<open>_s\<close>.
\<close>

lemma dec_not_Nil: "dec n \<noteq> []"
  by (subst dec.simps) simp

lemma digit_inj:
  "a < 10 \<Longrightarrow> b < 10 \<Longrightarrow> ''0123456789'' ! a = ''0123456789'' ! b \<Longrightarrow> a = b"
  using nth_eq_iff_index_eq [of "''0123456789''" a b] by simp

lemma dec_inj: "dec n = dec m \<Longrightarrow> n = m"
proof (induction n arbitrary: m rule: dec.induct)
  case (1 n)
  show ?case
  proof (cases "n < 10")
    case small: True
    show ?thesis
    proof (cases "m < 10")
      case True
      with small "1.prems" show ?thesis
        by (simp add: dec.simps [of n] dec.simps [of m] digit_inj)
    next
      case False
      with small "1.prems" dec_not_Nil [of "m div 10"] show ?thesis
        by (simp add: dec.simps [of n] dec.simps [of m] Cons_eq_append_conv)
    qed
  next
    case big: False
    show ?thesis
    proof (cases "m < 10")
      case True
      with big "1.prems" dec_not_Nil [of "n div 10"] show ?thesis
        by (simp add: dec.simps [of n] dec.simps [of m] append_eq_Cons_conv)
    next
      case False
      with big "1.prems" have "dec (n div 10) = dec (m div 10)"
        and d: "''0123456789'' ! (n mod 10) = ''0123456789'' ! (m mod 10)"
        by (simp_all add: dec.simps [of n] dec.simps [of m])
      with "1.IH" [OF big] have "n div 10 = m div 10"
        by simp
      moreover from d have "n mod 10 = m mod 10"
        by (intro digit_inj) simp_all
      ultimately show ?thesis
        by (metis div_mult_mod_eq)
    qed
  qed
qed

lemma site_key_fresh:
  "take 2 sn \<noteq> ''_s'' \<Longrightarrow> map_of (map (\<lambda>k. (''_s'' @ dec k, k)) [0..<j]) sn = None"
  by (auto simp: map_of_eq_None_iff image_iff)

lemma dict_set_new_site:
  "dict_set (map (\<lambda>k. (''_s'' @ dec k, k)) [0..<j]) (''_s'' @ dec j) j
   = map (\<lambda>k. (''_s'' @ dec k, k)) [0..<Suc j]"
  by (auto simp: dict_set_def image_iff dest: dec_inj)

lemma dict_set_new_channel:
  "dict_set (map (\<lambda>k. (''_c'' @ dec k, k)) [0..<j]) (''_c'' @ dec j) j
   = map (\<lambda>k. (''_c'' @ dec k, k)) [0..<Suc j]"
  by (auto simp: dict_set_def image_iff dest: dec_inj)

lemma site_step:
  assumes b: "chain_built j st" and fresh: "take 2 sn \<noteq> ''_s''"
  shows "fst (site_by_key sn True st) = Inr j"
    and "site_ix (snd (site_by_key sn True st)) = int j"
    and "channel_ix (snd (site_by_key sn True st)) = channel_ix st"
    and "nw_sites (snd (site_by_key sn True st)) = map (\<lambda>k. (''_s'' @ dec k, k)) [0..<Suc j]"
    and "nw_channels (snd (site_by_key sn True st)) = nw_channels st"
    and "channel_objs (snd (site_by_key sn True st)) = channel_objs st"
    and "site_producer (site_objs (snd (site_by_key sn True st)) j) = None"
    and "\<And>s. s \<noteq> j \<Longrightarrow> site_objs (snd (site_by_key sn True st)) s = site_objs st s"
proof -
  from b have ix: "nat (site_ix st + 1) = j" "site_ix st + 1 = int j"
    and sites: "nw_sites st = map (\<lambda>k. (''_s'' @ dec k, k)) [0..<j]"
    by (simp_all add: chain_built_def)
  note facts = site_key_fresh [OF fresh, of j] ix sites dict_set_new_site [of j]
  note defs = site_by_key_def Site_init_def Let_def
  show "fst (site_by_key sn True st) = Inr j"
    using facts by (simp add: defs del: upt_Suc)
  show "site_ix (snd (site_by_key sn True st)) = int j"
    using facts by (simp add: defs del: upt_Suc)
  show "channel_ix (snd (site_by_key sn True st)) = channel_ix st"
    using facts by (simp add: defs del: upt_Suc)
  show "nw_sites (snd (site_by_key sn True st)) = map (\<lambda>k. (''_s'' @ dec k, k)) [0..<Suc j]"
    using facts by (simp add: defs del: upt_Suc)
  show "nw_channels (snd (site_by_key sn True st)) = nw_channels st"
    using facts by (simp add: defs del: upt_Suc)
  show "channel_objs (snd (site_by_key sn True st)) = channel_objs st"
    using facts by (simp add: defs del: upt_Suc)
  show "site_producer (site_objs (snd (site_by_key sn True st)) j) = None"
    using facts by (simp add: defs del: upt_Suc)
  show "\<And>s. s \<noteq> j \<Longrightarrow> site_objs (snd (site_by_key sn True st)) s = site_objs st s"
    using facts by (simp add: defs del: upt_Suc)
qed

lemma channel_step:
  assumes ix: "channel_ix st = int m - 1"
    and chans: "nw_channels st = map (\<lambda>k. (''_c'' @ dec k, k)) [0..<m]"
    and free: "site_producer (site_objs st (Suc m)) = None"
  shows "fst (channel_create (Sites (One m)) (Sites (One (Suc m))) st) = Inr m"
    and "site_ix (snd (channel_create (Sites (One m)) (Sites (One (Suc m))) st)) = site_ix st"
    and "channel_ix (snd (channel_create (Sites (One m)) (Sites (One (Suc m))) st)) = int m"
    and "nw_sites (snd (channel_create (Sites (One m)) (Sites (One (Suc m))) st)) = nw_sites st"
    and "nw_channels (snd (channel_create (Sites (One m)) (Sites (One (Suc m))) st))
         = map (\<lambda>k. (''_c'' @ dec k, k)) [0..<Suc m]"
    and "chan_source (channel_objs (snd (channel_create (Sites (One m)) (Sites (One (Suc m))) st)) m)
         = [m]"
    and "chan_target (channel_objs (snd (channel_create (Sites (One m)) (Sites (One (Suc m))) st)) m)
         = {Suc m}"
    and "\<And>c. c \<noteq> m \<Longrightarrow>
           channel_objs (snd (channel_create (Sites (One m)) (Sites (One (Suc m))) st)) c
           = channel_objs st c"
    and "site_producer (site_objs (snd (channel_create (Sites (One m)) (Sites (One (Suc m))) st))
           (Suc m)) = Some m"
    and "\<And>s. s \<noteq> Suc m \<Longrightarrow>
           site_objs (snd (channel_create (Sites (One m)) (Sites (One (Suc m))) st)) s
           = site_objs st s"
proof -
  from ix have n: "nat (channel_ix st + 1) = m" "channel_ix st + 1 = int m"
    by simp_all
  note facts = n chans free dict_set_new_channel [of m]
  note defs = channel_create_def Channel_init_def Channel_alloc_def Let_def
    upd_channel_def upd_site_def
  show "fst (channel_create (Sites (One m)) (Sites (One (Suc m))) st) = Inr m"
    using facts by (simp add: defs del: upt_Suc)
  show "site_ix (snd (channel_create (Sites (One m)) (Sites (One (Suc m))) st)) = site_ix st"
    using facts by (simp add: defs del: upt_Suc)
  show "channel_ix (snd (channel_create (Sites (One m)) (Sites (One (Suc m))) st)) = int m"
    using facts by (simp add: defs del: upt_Suc)
  show "nw_sites (snd (channel_create (Sites (One m)) (Sites (One (Suc m))) st)) = nw_sites st"
    using facts by (simp add: defs del: upt_Suc)
  show "nw_channels (snd (channel_create (Sites (One m)) (Sites (One (Suc m))) st))
         = map (\<lambda>k. (''_c'' @ dec k, k)) [0..<Suc m]"
    using facts by (simp add: defs del: upt_Suc)
  show "chan_source (channel_objs (snd (channel_create (Sites (One m)) (Sites (One (Suc m))) st)) m)
         = [m]"
    using facts by (simp add: defs del: upt_Suc)
  show "chan_target (channel_objs (snd (channel_create (Sites (One m)) (Sites (One (Suc m))) st)) m)
         = {Suc m}"
    using facts by (simp add: defs del: upt_Suc)
  show "\<And>c. c \<noteq> m \<Longrightarrow>
           channel_objs (snd (channel_create (Sites (One m)) (Sites (One (Suc m))) st)) c
           = channel_objs st c"
    using facts by (simp add: defs del: upt_Suc)
  show "site_producer (site_objs (snd (channel_create (Sites (One m)) (Sites (One (Suc m))) st))
           (Suc m)) = Some m"
    using facts by (simp add: defs del: upt_Suc)
  show "\<And>s. s \<noteq> Suc m \<Longrightarrow>
           site_objs (snd (channel_create (Sites (One m)) (Sites (One (Suc m))) st)) s
           = site_objs st s"
    using facts by (simp add: defs del: upt_Suc)
qed

lemma chain_built_label:
  "chain_built j (upd_channel c (\<lambda>ch. ch\<lparr>chan_label := l\<rparr>) st) = chain_built j st"
  by (auto simp: chain_built_def upd_channel_def)

lemma chain_built_first:
  assumes b: "chain_built 0 st" and fresh: "take 2 sn \<noteq> ''_s''"
  shows "chain_built (Suc 0) (snd (site_by_key sn True st))"
proof -
  let ?st1 = "snd (site_by_key sn True st)"
  note s = site_step [OF b fresh]
  from b have old: "channel_ix st = - 1" "nw_channels st = []"
    by (simp_all add: chain_built_def)
  have "site_ix ?st1 = int (Suc 0) - 1"
    using s(2) by simp
  moreover have "channel_ix ?st1 = int (Suc 0 - 1) - 1"
    using s(3) old by simp
  moreover have "nw_sites ?st1 = map (\<lambda>k. (''_s'' @ dec k, k)) [0..<Suc 0]"
    using s(4) .
  moreover have "nw_channels ?st1 = map (\<lambda>k. (''_c'' @ dec k, k)) [0..<Suc 0 - 1]"
    using s(5) old by simp
  moreover have "site_producer (site_objs ?st1 x) = (if x = 0 then None else Some (x - 1))"
    if "x < Suc 0" for x
    using that s(7) by simp
  ultimately show ?thesis
    unfolding chain_built_def by simp
qed

lemma chain_built_next:
  assumes b: "chain_built (Suc m) st" and fresh: "take 2 sn \<noteq> ''_s''"
  shows "chain_built (Suc (Suc m))
           (snd (channel_create (Sites (One m)) (Sites (One (Suc m)))
                  (snd (site_by_key sn True st))))"
proof -
  let ?st1 = "snd (site_by_key sn True st)"
  let ?st2 = "snd (channel_create (Sites (One m)) (Sites (One (Suc m))) ?st1)"
  note s = site_step [OF b fresh]
  from b have old: "channel_ix st = int m - 1"
    "nw_channels st = map (\<lambda>k. (''_c'' @ dec k, k)) [0..<m]"
    "\<And>c. c < m \<Longrightarrow> chan_source (channel_objs st c) = [c]
                  \<and> chan_target (channel_objs st c) = {Suc c}"
    "\<And>x. x < Suc m \<Longrightarrow> site_producer (site_objs st x) = (if x = 0 then None else Some (x - 1))"
    by (simp_all add: chain_built_def)
  have pre: "channel_ix ?st1 = int m - 1"
    "nw_channels ?st1 = map (\<lambda>k. (''_c'' @ dec k, k)) [0..<m]"
    "site_producer (site_objs ?st1 (Suc m)) = None"
    using s(3,5,7) old(1,2) by simp_all
  note c = channel_step [OF pre]
  have "site_ix ?st2 = int (Suc (Suc m)) - 1"
    using c(2) s(2) by simp
  moreover have "channel_ix ?st2 = int (Suc (Suc m) - 1) - 1"
    using c(3) by simp
  moreover have "nw_sites ?st2 = map (\<lambda>k. (''_s'' @ dec k, k)) [0..<Suc (Suc m)]"
    using c(4) s(4) by simp
  moreover have "nw_channels ?st2 = map (\<lambda>k. (''_c'' @ dec k, k)) [0..<Suc (Suc m) - 1]"
    using c(5) by simp
  moreover have "chan_source (channel_objs ?st2 x) = [x] \<and> chan_target (channel_objs ?st2 x) = {Suc x}"
    if "x < Suc (Suc m) - 1" for x
  proof (cases "x = m")
    case True
    with c(6,7) show ?thesis by simp
  next
    case False
    with that have "x < m" by simp
    with False c(8) [of x] s(6) old(3) [of x] show ?thesis by simp
  qed
  moreover have "site_producer (site_objs ?st2 x) = (if x = 0 then None else Some (x - 1))"
    if "x < Suc (Suc m)" for x
  proof (cases "x = Suc m")
    case True
    with c(9) show ?thesis by simp
  next
    case False
    with that have "x < Suc m" by simp
    with False c(10) [of x] s(8) [of x] old(4) [of x] show ?thesis by simp
  qed
  ultimately show ?thesis
    unfolding chain_built_def by blast
qed

lemma init_sites_first:
  "fst (site_by_key sn True st) = Inr s \<Longrightarrow>
   init_sites (sn # sns) cids None st = init_sites sns cids (Some s) (snd (site_by_key sn True st))"
  by (cases "site_by_key sn True st") simp

lemma init_sites_next:
  "fst (site_by_key sn True st) = Inr s \<Longrightarrow>
   fst (channel_create (Sites (One t)) (Sites (One s)) (snd (site_by_key sn True st))) = Inr c \<Longrightarrow>
   init_sites (sn # sns) cids (Some t) st
   = (case cids of
        [] \<Rightarrow> init_sites sns [] (Some s)
               (snd (channel_create (Sites (One t)) (Sites (One s)) (snd (site_by_key sn True st))))
      | l # ls \<Rightarrow> init_sites sns ls (Some s)
               (upd_channel c (\<lambda>ch. ch\<lparr>chan_label := l\<rparr>)
                 (snd (channel_create (Sites (One t)) (Sites (One s))
                        (snd (site_by_key sn True st))))))"
  by (cases "site_by_key sn True st";
      cases "channel_create (Sites (One t)) (Sites (One s)) (snd (site_by_key sn True st))")
     (auto split: list.splits)

lemma init_sites_chain:
  "chain_built j st \<Longrightarrow> tail = (if j = 0 then None else Some (j - 1))
   \<Longrightarrow> \<forall>sn \<in> set names. take 2 sn \<noteq> ''_s''
   \<Longrightarrow> fst (init_sites names cids tail st) = Inr ()
       \<and> chain_built (j + length names) (snd (init_sites names cids tail st))"
proof (induction names arbitrary: j st cids tail)
  case Nil
  then show ?case by simp
next
  case (Cons sn sns)
  from Cons.prems(3) have fresh: "take 2 sn \<noteq> ''_s''"
    and rest: "\<forall>sn \<in> set sns. take 2 sn \<noteq> ''_s''"
    by simp_all
  let ?st1 = "snd (site_by_key sn True st)"
  note s = site_step [OF Cons.prems(1) fresh]
  show ?case
  proof (cases j)
    case 0
    with Cons.prems(1) fresh have "chain_built (Suc 0) ?st1"
      by (simp add: chain_built_first)
    from Cons.IH [OF this _ rest, of "Some 0" cids]
    have "fst (init_sites sns cids (Some 0) ?st1) = Inr ()
        \<and> chain_built (Suc 0 + length sns) (snd (init_sites sns cids (Some 0) ?st1))"
      by simp
    moreover from 0 s(1) have "fst (site_by_key sn True st) = Inr 0"
      by simp
    then have "init_sites (sn # sns) cids None st = init_sites sns cids (Some 0) ?st1"
      by (rule init_sites_first)
    with 0 Cons.prems(2)
    have "init_sites (sn # sns) cids tail st = init_sites sns cids (Some 0) ?st1"
      by (simp del: init_sites.simps)
    ultimately show ?thesis
      using 0 by (simp del: init_sites.simps)
  next
    case (Suc m)
    let ?st2 = "snd (channel_create (Sites (One m)) (Sites (One (Suc m))) ?st1)"
    from Suc Cons.prems(1) fresh have built: "chain_built (Suc (Suc m)) ?st2"
      by (simp add: chain_built_next)
    from Suc Cons.prems(1) have old: "channel_ix st = int m - 1"
      "nw_channels st = map (\<lambda>k. (''_c'' @ dec k, k)) [0..<m]"
      by (simp_all add: chain_built_def)
    have pre: "channel_ix ?st1 = int m - 1"
      "nw_channels ?st1 = map (\<lambda>k. (''_c'' @ dec k, k)) [0..<m]"
      "site_producer (site_objs ?st1 (Suc m)) = None"
      using s(3,5,7) old Suc by simp_all
    note c = channel_step(1) [OF pre]
    from s(1) Suc have s1: "fst (site_by_key sn True st) = Inr (Suc m)"
      by simp
    from Suc Cons.prems(2) have tl: "tail = Some m"
      by simp
    note unfold = init_sites_next [OF s1 c, of sns cids]
    show ?thesis
    proof (cases cids)
      case Nil
      from Cons.IH [OF built _ rest, of "Some (Suc m)" "[]"]
      have "fst (init_sites sns [] (Some (Suc m)) ?st2) = Inr ()
        \<and> chain_built (Suc (Suc m) + length sns) (snd (init_sites sns [] (Some (Suc m)) ?st2))"
        by simp
      with unfold Nil tl Suc show ?thesis
        by (simp del: init_sites.simps)
    next
      case (Cons l ls)
      let ?st3 = "upd_channel m (\<lambda>ch. ch\<lparr>chan_label := l\<rparr>) ?st2"
      from built have "chain_built (Suc (Suc m)) ?st3"
        by (simp add: chain_built_label)
      from Cons.IH [OF this _ rest, of "Some (Suc m)" ls]
      have "fst (init_sites sns ls (Some (Suc m)) ?st3) = Inr ()
        \<and> chain_built (Suc (Suc m) + length sns) (snd (init_sites sns ls (Some (Suc m)) ?st3))"
        by simp
      with unfold Cons tl Suc show ?thesis
        by (simp del: init_sites.simps)
    qed
  qed
qed

lemma chain_built_linear: "chain_built n st \<Longrightarrow> linear_chain n st"
  by (simp add: chain_built_def linear_chain_def comp_def)

lemma Network_init_chain:
  assumes "\<forall>sn \<in> set names. take 2 sn \<noteq> ''_s''"
  shows "fst (Network_init ''IF0.2'' (Some names) cids) = Inr ()"
    and "linear_chain (length names) (snd (Network_init ''IF0.2'' (Some names) cids))"
proof -
  have start: "chain_built 0 new_network"
    by (simp add: chain_built_def new_network_def)
  from init_sites_chain [OF start _ assms, of None]
  show "fst (Network_init ''IF0.2'' (Some names) cids) = Inr ()"
    and "linear_chain (length names) (snd (Network_init ''IF0.2'' (Some names) cids))"
    by (simp_all add: Network_init_def chain_built_linear)
qed

corollary Network_init_levels:
  assumes "\<forall>sn \<in> set names. take 2 sn \<noteq> ''_s''"
    and "2 \<le> length names" and "length names \<le> 1002"
  shows "(\<forall>s < length names.
            site_level (site_objs (snd (compute_order (net_chain names))) s) = int s)
   \<and> (\<forall>c < length names - 1.
            chan_level (channel_objs (snd (compute_order (net_chain names))) c) = int c)"
  using chain_levels_final
    [OF linear_chain_final_levels [OF Network_init_chain(2) [OF assms(1), of None] assms(2,3)]]
  by (simp add: net_chain_def)

end
